theory Spec2Isabelle
  imports Main
begin

section \<open>Data model (main.go, lines 14-39)\<close>

text \<open>
  A \<open>Server\<close> is the Go struct of the same name. \<open>URL\<close> stands for the parsed
  \<open>*url.URL\<close>. \<open>Mu\<close> is the state of the mutex the field \<open>Mu *sync.Mutex\<close>
  points to (every server gets a mutex of its own at line 97): \<open>True\<close> means locked.
  \<open>ActiveConnections\<close> is a Go \<open>int\<close>, a machine integer of 64 or 32 bits: the
  field holds the integer it denotes. The selector only compares counters; the handler's
  \<open>++\<close> and \<open>--\<close> wrap around (\<open>wrap\<close> below, with the width as a parameter).

  The pool is the slice \<open>[]*Server\<close>. It is built once and never resized, so a
  pointer to a server is modelled as its index in the pool.
\<close>

record Server =
  URL :: string
  ActiveConnections :: int
  Mu :: bool
  Healthy :: bool

record Config =
  HealthCheckInterval :: string
  Servers :: "string list"
  ListenPort :: string

text \<open>
  Run-time failures of the Go code. \<open>IndexOutOfRange\<close> and
  \<open>NilPointerDereference\<close> are run-time panics; \<open>ErrAbortHandler\<close> is the panic
  a reverse proxy raises to abort a handler; \<open>UnlockOfUnlockedMutex\<close> is the fatal
  error of \<open>sync.Mutex.Unlock\<close> on a mutex that is not locked.
\<close>

datatype panic =
  IndexOutOfRange
  | NilPointerDereference
  | ErrAbortHandler
  | UnlockOfUnlockedMutex

text \<open>
  What a call does when it runs with no other goroutine taking a step: it returns, it
  panics, or it parks on a mutex that is held (\<open>Blocked\<close>), where it stays until
  some other goroutine unlocks that mutex.
\<close>

datatype 'a outcome =
  Return 'a
  | Panic panic
  | Blocked

section \<open>The selector: nextServerLeastActive (main.go, lines 61-78)\<close>

text \<open>
  The loop's locals are the pair \<open>(leastActiveConnections, leastActiveServer)\<close>.
  \<open>visit server i\<close> is the loop body at lines 68-73 for the pool entry at index
  \<open>i\<close>, run while that entry's mutex is held.
\<close>

definition visit :: "Server \<Rightarrow> nat \<Rightarrow> int \<times> nat \<Rightarrow> int \<times> nat" where
  "visit server i st =
     (case st of (leastActiveConnections, leastActiveServer) \<Rightarrow>
        if Healthy server then
          (if ActiveConnections server < leastActiveConnections \<or> leastActiveConnections = - 1
           then (ActiveConnections server, i)
           else (leastActiveConnections, leastActiveServer))
        else (leastActiveConnections, leastActiveServer))"

text \<open>
  The \<open>for ... range servers\<close> loop from index \<open>i\<close> on: each iteration locks the
  entry's mutex (line 67; the goroutine parks if it is held), runs the body and unlocks
  again (line 74), so the pool itself is left as it was. The result is the locals after
  the last iteration.
\<close>

fun loop :: "Server list \<Rightarrow> nat \<Rightarrow> int \<times> nat \<Rightarrow> (int \<times> nat) outcome" where
  "loop [] i st = Return st"
| "loop (server # rest) i st =
     (if Mu server then Blocked else loop rest (Suc i) (visit server i st))"

text \<open>
  Lines 62-63 read \<open>servers[0]\<close> with no length check and without taking its mutex:
  on the empty slice the index expression panics. Line 77 returns \<open>leastActiveServer\<close>.
\<close>

definition nextServerLeastActive :: "Server list \<Rightarrow> nat outcome" where
  "nextServerLeastActive servers =
     (case servers of
        [] \<Rightarrow> Panic IndexOutOfRange
      | first # _ \<Rightarrow>
          (case loop servers 0 (ActiveConnections first, 0) of
             Return st \<Rightarrow> Return (snd st)
           | Panic p \<Rightarrow> Panic p
           | Blocked \<Rightarrow> Blocked))"

text \<open>
  The locals at the start of every iteration the loop executes, paired with the entry
  visited: the values the conditions at lines 68-69 are evaluated on.
\<close>

fun iterations :: "Server list \<Rightarrow> nat \<Rightarrow> int \<times> nat \<Rightarrow> (Server \<times> int \<times> nat) list" where
  "iterations [] i st = []"
| "iterations (server # rest) i st =
     (if Mu server then [] else (server, st) # iterations rest (Suc i) (visit server i st))"

text \<open>
  The disjunct \<open>leastActiveConnections == -1\<close> of line 69 is evaluated and true:
  Go's \<open>||\<close> evaluates it only when the entry is healthy and the first disjunct is false.
\<close>

definition sentinel_fires :: "Server \<times> int \<times> nat \<Rightarrow> bool" where
  "sentinel_fires it =
     (case it of (server, leastActiveConnections, leastActiveServer) \<Rightarrow>
        Healthy server \<and> \<not> ActiveConnections server < leastActiveConnections
        \<and> leastActiveConnections = - 1)"

definition scan_iterations :: "Server list \<Rightarrow> (Server \<times> int \<times> nat) list" where
  "scan_iterations servers =
     (case servers of
        [] \<Rightarrow> []
      | first # _ \<Rightarrow> iterations servers 0 (ActiveConnections first, 0))"

text \<open>Pools for examples: a server with a free mutex, given its health and its count.\<close>

definition srv :: "bool \<Rightarrow> int \<Rightarrow> Server" where
  "srv h n = \<lparr>URL = ''http://backend'', ActiveConnections = n, Mu = False, Healthy = h\<rparr>"

section \<open>One health check (main.go, lines 105-119)\<close>

text \<open>
  \<open>http.Get\<close> returns a pair \<open>(res, err)\<close>. When the request fails to complete
  (connection refused, timeout) \<open>res\<close> is nil and \<open>err\<close> is set. Of a response
  the code reads the status code and closes the body; \<open>CloseError\<close> is what
  \<open>res.Body.Close()\<close> returns.
\<close>

record Response =
  StatusCode :: int
  CloseError :: "string option"

type_synonym probe = "Response option \<times> string option"

text \<open>
  Line 108 evaluates \<open>res.Body\<close> before line 113 looks at \<open>err\<close>: with a nil
  \<open>res\<close> it is a nil-pointer dereference. An error of \<open>Close\<close> is logged.
\<close>

definition close_body :: "probe \<Rightarrow> panic + string list" where
  "close_body p =
     (case fst p of
        None \<Rightarrow> Inl NilPointerDereference
      | Some res \<Rightarrow>
          (case CloseError res of
             None \<Rightarrow> Inr []
           | Some err \<Rightarrow> Inr [''Error closing request body: '' @ err]))"

text \<open>
  Lines 113-117: \<open>err != nil || res.StatusCode >= 500\<close> makes the server unhealthy.
  The status code is read only when \<open>err\<close> is nil, and then \<open>res\<close> is not nil.
\<close>

definition probe_healthy :: "probe \<Rightarrow> bool" where
  "probe_healthy p =
     (case p of (res, err) \<Rightarrow>
        \<not> (err \<noteq> None \<or> (case res of None \<Rightarrow> False | Some r \<Rightarrow> 500 \<le> StatusCode r)))"

text \<open>
  One iteration of the checker's loop on its server, from the result of \<open>http.Get\<close>
  on: Lock (line 106), close the body, set \<open>Healthy\<close>, Unlock (line 119). It returns
  the server and the lines logged.
\<close>

definition health_check :: "probe \<Rightarrow> Server \<Rightarrow> (Server \<times> string list) outcome" where
  "health_check p s =
     (if Mu s then Blocked
      else (case close_body p of
              Inl e \<Rightarrow> Panic e
            | Inr logged \<Rightarrow> Return (s\<lparr>Healthy := probe_healthy p\<rparr>, logged)))"

section \<open>Configuration and startup (main.go, lines 42-56 and 80-98)\<close>

text \<open>
  \<open>os.ReadFile\<close> and \<open>json.Unmarshal\<close> belong to Go's library and are parameters:
  \<open>readFile path\<close> is \<open>Inl err\<close> or \<open>Inr bytes\<close>; \<open>unmarshal bytes config\<close>
  is the configuration it leaves in \<open>&config\<close> and the error it returns, if any.
  An error is its message. \<open>loadConfig\<close> returns Go's pair \<open>(Config, error)\<close>.
\<close>

type_synonym error = string

definition zero_Config :: Config where
  "zero_Config = \<lparr>HealthCheckInterval = [], Servers = [], ListenPort = []\<rparr>"

definition loadConfig ::
  "(string \<Rightarrow> error + string) \<Rightarrow> (string \<Rightarrow> Config \<Rightarrow> Config \<times> error option) \<Rightarrow>
   string \<Rightarrow> Config \<times> error option" where
  "loadConfig readFile unmarshal path =
     (let config = zero_Config in
      case readFile path of
        Inl err \<Rightarrow> (config, Some err)
      | Inr bytes \<Rightarrow>
          (case unmarshal bytes config of
             (config', Some err) \<Rightarrow> (config', Some err)
           | (config', None) \<Rightarrow> (config', None)))"

text \<open>
  Lines 91-98: one server per configured URL, in order; \<open>url.Parse\<close> is a parameter.
  A new server has count 0 (Go's zero value), a fresh mutex and \<open>Healthy: true\<close>.
\<close>

fun build_servers :: "(string \<Rightarrow> error + string) \<Rightarrow> string list \<Rightarrow> Server list \<Rightarrow> error + Server list" where
  "build_servers urlParse [] servers = Inr servers"
| "build_servers urlParse (serverUrl # rest) servers =
     (case urlParse serverUrl of
        Inl err \<Rightarrow> Inl err
      | Inr u \<Rightarrow>
          build_servers urlParse rest
            (servers @ [\<lparr>URL = u, ActiveConnections = 0, Mu = False, Healthy = True\<rparr>]))"

section \<open>The running process: handlers and health checkers as goroutines\<close>

text \<open>
  The process runs one goroutine per request and one health checker per server, on the
  shared pool. It is modelled as a state machine: the state holds the pool and the
  place each goroutine has reached, and one event lets one goroutine execute one
  statement. A run is any sequence of events, so every interleaving of the goroutines is
  a run. A goroutine that calls Lock on a held mutex does not move.

  The only access outside a mutex is the read of \<open>servers[0].ActiveConnections\<close> at
  line 62; it yields the counter's current value. The invariants of the counters and
  the mutexes below put no condition on the value read.
\<close>

text \<open>
  Where a request handler stands (lines 125-136, with the selector inlined). A pool index
  is the server the step works on; \<open>AtScanLock\<close> and \<open>AtScanBody\<close> carry the
  selector's loop index and its two locals.
  \<^item> \<open>AtSelect\<close>: line 126, before \<open>servers[0]\<close> is read at line 62;
  \<^item> \<open>AtScanLock i\<close>: before the Lock of line 67 for entry \<open>i\<close>, or, past the last
    entry, before the return of line 77;
  \<^item> \<open>AtScanBody i\<close>: lines 68-74, holding the mutex of entry \<open>i\<close>;
  \<^item> \<open>AtLock\<close>, \<open>AtIncrement\<close>, \<open>AtServe\<close>, \<open>AtRelock\<close>, \<open>AtDecrement\<close>:
    before lines 127, 129, 131 (in \<open>ServeHTTP\<close>), 133 and 135;
  \<^item> \<open>AtDeferred2\<close>, \<open>AtDeferred1\<close>: at the return, with two and one deferred Unlock
    still to run; \<open>Finished\<close>: returned;
  \<^item> \<open>Aborted\<close>: \<open>ServeHTTP\<close> panicked; \<open>Panicked\<close>: a run-time panic ended the
    handler.
\<close>

datatype hpc =
  AtSelect
  | AtScanLock nat int nat
  | AtScanBody nat int nat
  | AtLock nat
  | AtIncrement nat
  | AtServe nat
  | AtRelock nat
  | AtDecrement nat
  | AtDeferred2 nat
  | AtDeferred1 nat
  | Finished
  | Aborted nat
  | Panicked panic

text \<open>Where the health checker of a server stands (lines 104-119).\<close>

datatype cpc =
  AtTick
  | AtCheckLock probe
  | AtClose probe
  | AtSetHealthy probe
  | AtUnlock

text \<open>
  The process: the pool, one entry of \<open>handlers\<close> per request that has arrived, one
  entry of \<open>checkers\<close> per server, the lines logged, and \<open>fatal\<close> once the whole
  process has died (a panic outside a request handler, or a fatal run-time error).
\<close>

record LB =
  pool :: "Server list"
  handlers :: "hpc list"
  checkers :: "cpc list"
  logs :: "string list"
  fatal :: "panic option"

text \<open>
  \<open>sync.Mutex\<close>: Lock takes a free mutex and otherwise does not return (\<open>None\<close>:
  the goroutine stays where it is); the mutex is not re-entrant. Unlock frees a locked
  mutex, whoever locked it, and is a fatal error on a free one (\<open>None\<close>).
\<close>

definition lock :: "nat \<Rightarrow> Server list \<Rightarrow> Server list option" where
  "lock k ss = (if Mu (ss ! k) then None else Some (ss[k := (ss ! k)\<lparr>Mu := True\<rparr>]))"

definition unlock :: "nat \<Rightarrow> Server list \<Rightarrow> Server list option" where
  "unlock k ss = (if Mu (ss ! k) then Some (ss[k := (ss ! k)\<lparr>Mu := False\<rparr>]) else None)"

text \<open>
  Handler \<open>t\<close> goes on at \<open>pc\<close>; it locks the mutex of server \<open>k\<close> and goes on
  (or waits); it unlocks it and goes on (or the process dies).
\<close>

definition at :: "nat \<Rightarrow> hpc \<Rightarrow> LB \<Rightarrow> LB" where
  "at t pc s = s\<lparr>handlers := (handlers s)[t := pc]\<rparr>"

definition try_lock :: "nat \<Rightarrow> nat \<Rightarrow> hpc \<Rightarrow> LB \<Rightarrow> LB" where
  "try_lock t k pc s =
     (case lock k (pool s) of
        None \<Rightarrow> s
      | Some ss \<Rightarrow> at t pc (s\<lparr>pool := ss\<rparr>))"

definition release :: "nat \<Rightarrow> nat \<Rightarrow> hpc \<Rightarrow> LB \<Rightarrow> LB" where
  "release t k pc s =
     (case unlock k (pool s) of
        None \<Rightarrow> s\<lparr>fatal := Some UnlockOfUnlockedMutex\<rparr>
      | Some ss \<Rightarrow> at t pc (s\<lparr>pool := ss\<rparr>))"

text \<open>
  Go's \<open>int\<close> is a two's-complement integer of \<open>bits\<close> bits: 64 on a 64-bit
  target, 32 on a 32-bit one. Its arithmetic wraps around: \<open>wrap bits x\<close> is the value
  such an integer holds for the mathematical result \<open>x\<close>.
\<close>

definition wrap :: "nat \<Rightarrow> int \<Rightarrow> int" where
  "wrap bits x = (x + 2 ^ (bits - 1)) mod 2 ^ bits - 2 ^ (bits - 1)"

text \<open>\<open>ActiveConnections++\<close> and \<open>ActiveConnections--\<close> on server \<open>k\<close>.\<close>

definition add_connections :: "nat \<Rightarrow> nat \<Rightarrow> int \<Rightarrow> LB \<Rightarrow> LB" where
  "add_connections bits k d s =
     s\<lparr>pool := (pool s)[k := (pool s ! k)
          \<lparr>ActiveConnections := wrap bits (ActiveConnections (pool s ! k) + d)\<rparr>]\<rparr>"

text \<open>
  The next step of handler \<open>t\<close>. The selector: line 62 reads \<open>servers[0]\<close>
  (a panic on the empty pool, which \<open>net/http\<close> recovers: the handler is over, the
  process goes on); every iteration locks (line 67), then runs the body and unlocks
  (lines 68-74); after the last one line 77 returns. The handler: Lock (line 127, with
  the Unlock deferred to the return), increment (line 129), \<open>ServeHTTP\<close> (line 131,
  which ends by an event of its own), Lock again (line 133), decrement (line 135), and at
  the return the two deferred Unlocks, last deferred first.
\<close>

definition handler_step :: "nat \<Rightarrow> nat \<Rightarrow> LB \<Rightarrow> LB" where
  "handler_step bits t s =
     (case handlers s ! t of
        AtSelect \<Rightarrow>
          (case pool s of
             [] \<Rightarrow> at t (Panicked IndexOutOfRange) s
           | first # _ \<Rightarrow> at t (AtScanLock 0 (ActiveConnections first) 0) s)
      | AtScanLock i least best \<Rightarrow>
          (if i < length (pool s) then try_lock t i (AtScanBody i least best) s
           else at t (AtLock best) s)
      | AtScanBody i least best \<Rightarrow>
          (case visit (pool s ! i) i (least, best) of
             (least', best') \<Rightarrow> release t i (AtScanLock (Suc i) least' best') s)
      | AtLock k \<Rightarrow> try_lock t k (AtIncrement k) s
      | AtIncrement k \<Rightarrow> at t (AtServe k) (add_connections bits k 1 s)
      | AtServe k \<Rightarrow> s
      | AtRelock k \<Rightarrow> try_lock t k (AtDecrement k) s
      | AtDecrement k \<Rightarrow> at t (AtDeferred2 k) (add_connections bits k (- 1) s)
      | AtDeferred2 k \<Rightarrow> release t k (AtDeferred1 k) s
      | AtDeferred1 k \<Rightarrow> release t k Finished s
      | Finished \<Rightarrow> s
      | Aborted k \<Rightarrow> s
      | Panicked p \<Rightarrow> s)"

text \<open>
  \<open>ServeHTTP\<close> ends: it returns (the response was relayed, or the proxy answered
  with a gateway error), or it panics; then the Unlock deferred at line 128 runs and
  \<open>net/http\<close> recovers the panic.
\<close>

definition serve_returns :: "nat \<Rightarrow> LB \<Rightarrow> LB" where
  "serve_returns t s =
     (case handlers s ! t of
        AtServe k \<Rightarrow> at t (AtRelock k) s
      | _ \<Rightarrow> s)"

definition serve_panics :: "nat \<Rightarrow> LB \<Rightarrow> LB" where
  "serve_panics t s =
     (case handlers s ! t of
        AtServe k \<Rightarrow> release t k (Aborted k) s
      | _ \<Rightarrow> s)"

text \<open>
  The health checker of server \<open>k\<close>: a tick arrives and \<open>http.Get\<close> ends with
  \<open>p\<close> (line 105); then Lock (line 106), close the body (line 108; the nil-pointer
  panic is outside any handler and kills the process), set \<open>Healthy\<close> (lines 113-117)
  and Unlock (line 119).
\<close>

definition probe_done :: "nat \<Rightarrow> probe \<Rightarrow> LB \<Rightarrow> LB" where
  "probe_done k p s =
     (case checkers s ! k of
        AtTick \<Rightarrow> s\<lparr>checkers := (checkers s)[k := AtCheckLock p]\<rparr>
      | _ \<Rightarrow> s)"

definition checker_step :: "nat \<Rightarrow> LB \<Rightarrow> LB" where
  "checker_step k s =
     (case checkers s ! k of
        AtTick \<Rightarrow> s
      | AtCheckLock p \<Rightarrow>
          (case lock k (pool s) of
             None \<Rightarrow> s
           | Some ss \<Rightarrow> s\<lparr>pool := ss, checkers := (checkers s)[k := AtClose p]\<rparr>)
      | AtClose p \<Rightarrow>
          (case close_body p of
             Inl e \<Rightarrow> s\<lparr>fatal := Some e\<rparr>
           | Inr logged \<Rightarrow>
               s\<lparr>checkers := (checkers s)[k := AtSetHealthy p], logs := logs s @ logged\<rparr>)
      | AtSetHealthy p \<Rightarrow>
          s\<lparr>pool := (pool s)[k := (pool s ! k)\<lparr>Healthy := probe_healthy p\<rparr>],
            checkers := (checkers s)[k := AtUnlock]\<rparr>
      | AtUnlock \<Rightarrow>
          (case unlock k (pool s) of
             None \<Rightarrow> s\<lparr>fatal := Some UnlockOfUnlockedMutex\<rparr>
           | Some ss \<Rightarrow> s\<lparr>pool := ss, checkers := (checkers s)[k := AtTick]\<rparr>))"

text \<open>
  What can happen next: a GET request arrives and gets a handler goroutine (the route is
  \<open>"GET /"\<close>); a goroutine takes its next step; a call to the outside ends
  (\<open>ServeHTTP\<close> of handler \<open>t\<close>, or, after a tick, the \<open>http.Get\<close> of checker
  \<open>k\<close>). A goroutine that does not exist, or one that waits, stays as it is. Nothing
  happens in a dead process.
\<close>

datatype event =
  Arrive
  | Handler nat
  | ServeReturns nat
  | ServePanics nat
  | ProbeDone nat probe
  | Checker nat

definition step :: "nat \<Rightarrow> event \<Rightarrow> LB \<Rightarrow> LB" where
  "step bits e s =
     (if fatal s \<noteq> None then s
      else (case e of
              Arrive \<Rightarrow> s\<lparr>handlers := handlers s @ [AtSelect]\<rparr>
            | Handler t \<Rightarrow> (if t < length (handlers s) then handler_step bits t s else s)
            | ServeReturns t \<Rightarrow> (if t < length (handlers s) then serve_returns t s else s)
            | ServePanics t \<Rightarrow> (if t < length (handlers s) then serve_panics t s else s)
            | ProbeDone k p \<Rightarrow> (if k < length (checkers s) then probe_done k p s else s)
            | Checker k \<Rightarrow> (if k < length (checkers s) then checker_step k s else s)))"

fun run :: "nat \<Rightarrow> event list \<Rightarrow> LB \<Rightarrow> LB" where
  "run bits [] s = s"
| "run bits (e # es) s = run bits es (step bits e s)"

text \<open>
  Lines 100-139 on a pool: one health checker per server is started, the handler is
  registered, line 138 logs the port and the listener starts. No request has arrived
  yet.
\<close>

definition serving :: "Server list \<Rightarrow> string \<Rightarrow> LB" where
  "serving ss port =
     \<lparr>pool = ss, handlers = [], checkers = replicate (length ss) AtTick,
      logs = [''Starting server on port '' @ port], fatal = None\<rparr>"

text \<open>
  \<open>main\<close> up to the listener. Besides the two parameters of \<open>loadConfig\<close>,
  \<open>time.ParseDuration\<close>, \<open>url.Parse\<close> and whether \<open>http.ListenAndServe\<close>
  fails to start are parameters. Every \<open>log.Fatalf\<close> ends the process with its
  message; otherwise the process serves. The interval only spaces the ticks of the health
  checkers. The length of the pool is never looked at.
\<close>

datatype boot =
  Fatal string
  | Serving LB

definition main ::
  "(string \<Rightarrow> error + string) \<Rightarrow> (string \<Rightarrow> Config \<Rightarrow> Config \<times> error option) \<Rightarrow>
   (string \<Rightarrow> error + int) \<Rightarrow> (string \<Rightarrow> error + string) \<Rightarrow> (string \<Rightarrow> error option) \<Rightarrow>
   boot" where
  "main readFile unmarshal parseDuration urlParse listenAndServe =
     (case loadConfig readFile unmarshal ''config.jsonc'' of
        (config, Some err) \<Rightarrow> Fatal (''Error loading configuration: '' @ err)
      | (config, None) \<Rightarrow>
          (case parseDuration (HealthCheckInterval config) of
             Inl err \<Rightarrow> Fatal (''Error parsing healthCheckInterval: '' @ err)
           | Inr healthCheckInterval \<Rightarrow>
               (case build_servers urlParse (Servers config) [] of
                  Inl err \<Rightarrow> Fatal (''Error parsing servers (server URLs): '' @ err)
                | Inr built \<Rightarrow>
                    (case listenAndServe (ListenPort config) of
                       Some err \<Rightarrow> Fatal (''Error starting server: '' @ err)
                     | None \<Rightarrow> Serving (serving built (ListenPort config))))))"

text \<open>
  For examples: \<open>main\<close> with a library whose calls all succeed, on a configuration
  file with the given server list, interval "10s" and port ":8080".
\<close>

definition example_main :: "string list \<Rightarrow> boot" where
  "example_main urls =
     main (\<lambda>path. Inr ''the bytes of config.jsonc'')
       (\<lambda>bytes config. (config\<lparr>HealthCheckInterval := ''10s'', Servers := urls,
                                 ListenPort := '':8080''\<rparr>, None))
       (\<lambda>s. Inr 10) (\<lambda>u. Inr u) (\<lambda>port. None)"



section \<open>Invariants of the running process\<close>

text \<open>
  The server whose counter currently accounts for a handler: the handlers between the
  increment of line 129 and the decrement of line 135, and those whose \<open>ServeHTTP\<close>
  panicked after the increment.
\<close>

fun counted_on :: "hpc \<Rightarrow> nat option" where
  "counted_on (AtServe k) = Some k"
| "counted_on (AtRelock k) = Some k"
| "counted_on (AtDecrement k) = Some k"
| "counted_on (Aborted k) = Some k"
| "counted_on _ = None"

text \<open>
  The server whose mutex a handler holds: from a Lock that succeeded to the matching
  Unlock. For the handler's own Lock of line 127 that Unlock is deferred to the return.
\<close>

fun holds :: "hpc \<Rightarrow> nat option" where
  "holds (AtScanBody i least best) = Some i"
| "holds (AtIncrement k) = Some k"
| "holds (AtServe k) = Some k"
| "holds (AtRelock k) = Some k"
| "holds _ = None"

text \<open>A health checker holds its server's mutex from line 106 to line 119.\<close>

fun checker_holds :: "cpc \<Rightarrow> bool" where
  "checker_holds (AtClose p) = True"
| "checker_holds (AtSetHealthy p) = True"
| "checker_holds AtUnlock = True"
| "checker_holds _ = False"

text \<open>The handler has got past the second Lock (line 133).\<close>

fun past_relock :: "hpc \<Rightarrow> bool" where
  "past_relock (AtDecrement k) = True"
| "past_relock (AtDeferred2 k) = True"
| "past_relock (AtDeferred1 k) = True"
| "past_relock Finished = True"
| "past_relock _ = False"

text \<open>Every server a handler refers to is an entry of a pool of \<open>n\<close> servers.\<close>

fun in_pool :: "nat \<Rightarrow> hpc \<Rightarrow> bool" where
  "in_pool n (AtScanLock i least best) = (best < n)"
| "in_pool n (AtScanBody i least best) = (i < n \<and> best < n)"
| "in_pool n (AtLock k) = (k < n)"
| "in_pool n (AtIncrement k) = (k < n)"
| "in_pool n (AtServe k) = (k < n)"
| "in_pool n (AtRelock k) = (k < n)"
| "in_pool n (AtDecrement k) = (k < n)"
| "in_pool n (AtDeferred2 k) = (k < n)"
| "in_pool n (AtDeferred1 k) = (k < n)"
| "in_pool n (Aborted k) = (k < n)"
| "in_pool n _ = True"

text \<open>How many of the handlers \<open>hs\<close> the function \<open>on\<close> maps to server \<open>k\<close>.\<close>

definition tally :: "(hpc \<Rightarrow> nat option) \<Rightarrow> nat \<Rightarrow> hpc list \<Rightarrow> int" where
  "tally on k hs = (\<Sum>h\<leftarrow>hs. if on h = Some k then 1 else 0)"

text \<open>
  Every counter is the number of handlers it accounts for, as an \<open>int\<close> of
  \<open>bits\<close> bits holds it.
\<close>

definition accounted :: "nat \<Rightarrow> LB \<Rightarrow> bool" where
  "accounted bits s =
     (\<forall>k<length (pool s).
        ActiveConnections (pool s ! k) = wrap bits (tally counted_on k (handlers s)))"

text \<open>
  Mutual exclusion: a mutex is locked exactly when one goroutine holds it, and free when
  none does; no handler has got past line 133; every index is in the pool.
\<close>

definition holders :: "nat \<Rightarrow> LB \<Rightarrow> int" where
  "holders k s = tally holds k (handlers s) + (if checker_holds (checkers s ! k) then 1 else 0)"

definition exclusive :: "LB \<Rightarrow> bool" where
  "exclusive s =
     (length (checkers s) = length (pool s)
      \<and> (\<forall>h\<in>set (handlers s). in_pool (length (pool s)) h \<and> \<not> past_relock h)
      \<and> (\<forall>k<length (pool s). holders k s = (if Mu (pool s ! k) then 1 else 0)))"

text \<open>A server as \<open>main\<close> creates it.\<close>

definition fresh :: "Server \<Rightarrow> bool" where
  "fresh s = (ActiveConnections s = 0 \<and> \<not> Mu s \<and> Healthy s)"

section \<open>Properties of the selector\<close>

lemma loop_unblocked:
  "\<forall>s\<in>set ss. \<not> Mu s \<Longrightarrow> \<exists>st'. loop ss i st = Return st'"
  by (induction ss arbitrary: i st) auto

lemma loop_no_panic: "loop ss i st \<noteq> Panic p"
  by (induction ss arbitrary: i st) auto

lemma loop_origin:
  "loop ss i (l, b) = Return (l', b') \<Longrightarrow>
     (l' = l \<and> b' = b) \<or>
     (i \<le> b' \<and> b' < i + length ss \<and> Healthy (ss ! (b' - i))
        \<and> ActiveConnections (ss ! (b' - i)) = l')"
proof (induction ss arbitrary: i l b)
  case Nil
  then show ?case by simp
next
  case (Cons s ss)
  from Cons.prems have free: "\<not> Mu s"
    by (auto split: if_splits)
  obtain l1 b1 where v: "visit s i (l, b) = (l1, b1)"
    by (cases "visit s i (l, b)") auto
  with Cons.prems free have run: "loop ss (Suc i) (l1, b1) = Return (l', b')"
    by simp
  from v have first: "(l1 = l \<and> b1 = b) \<or> (Healthy s \<and> l1 = ActiveConnections s \<and> b1 = i)"
    by (auto simp: visit_def split: if_splits)
  from Cons.IH [OF run] show ?case
  proof
    assume "l' = l1 \<and> b' = b1"
    with first show ?thesis by auto
  next
    assume later: "Suc i \<le> b' \<and> b' < Suc i + length ss \<and> Healthy (ss ! (b' - Suc i))
        \<and> ActiveConnections (ss ! (b' - Suc i)) = l'"
    then have "b' - i = Suc (b' - Suc i)" by arith
    with later show ?thesis by auto
  qed
qed

lemma loop_keeps:
  "\<forall>s\<in>set ss. \<not> Mu s \<and> \<not> (Healthy s \<and> (ActiveConnections s < l \<or> l = - 1)) \<Longrightarrow>
     loop ss i (l, b) = Return (l, b)"
  by (induction ss arbitrary: i) (auto simp: visit_def)

lemma visit_least:
  assumes "visit s i (l, b) = (l1, b1)"
    and "Healthy s \<longrightarrow> ActiveConnections s \<noteq> - 1"
  shows "(l \<noteq> - 1 \<longrightarrow> l1 \<le> l \<and> l1 \<noteq> - 1)
       \<and> (Healthy s \<longrightarrow> l1 \<le> ActiveConnections s \<and> l1 \<noteq> - 1)"
  using assms by (auto simp: visit_def split: if_splits)

lemma loop_least:
  assumes "loop ss i (l, b) = Return (l', b')"
    and "\<forall>s\<in>set ss. Healthy s \<longrightarrow> ActiveConnections s \<noteq> - 1"
  shows "(l \<noteq> - 1 \<longrightarrow> l' \<le> l) \<and> (\<forall>s\<in>set ss. Healthy s \<longrightarrow> l' \<le> ActiveConnections s)"
  using assms
proof (induction ss arbitrary: i l b)
  case Nil
  then show ?case by simp
next
  case (Cons s ss)
  from Cons.prems(1) have free: "\<not> Mu s"
    by (auto split: if_splits)
  obtain l1 b1 where v: "visit s i (l, b) = (l1, b1)"
    by (cases "visit s i (l, b)") auto
  with Cons.prems(1) free have run: "loop ss (Suc i) (l1, b1) = Return (l', b')"
    by simp
  from Cons.prems(2) have rest: "\<forall>s\<in>set ss. Healthy s \<longrightarrow> ActiveConnections s \<noteq> - 1"
    and this_one: "Healthy s \<longrightarrow> ActiveConnections s \<noteq> - 1"
    by auto
  note step = visit_least [OF v this_one]
  note later = Cons.IH [OF run rest]
  have a: "l \<noteq> - 1 \<longrightarrow> l' \<le> l"
    using step later by auto
  have b: "Healthy s \<longrightarrow> l' \<le> ActiveConnections s"
    using step later by auto
  from a b later show ?case by simp
qed

lemma iterations_nonneg:
  "0 \<le> l \<Longrightarrow> \<forall>s\<in>set ss. 0 \<le> ActiveConnections s \<Longrightarrow>
     \<forall>it\<in>set (iterations ss i (l, b)). 0 \<le> fst (snd it)"
proof (induction ss arbitrary: i l b)
  case Nil
  then show ?case by simp
next
  case (Cons s ss)
  obtain l1 b1 where v: "visit s i (l, b) = (l1, b1)"
    by (cases "visit s i (l, b)") auto
  with Cons.prems have "0 \<le> l1"
    by (auto simp: visit_def split: if_splits)
  with Cons.prems Cons.IH [of l1 "Suc i" b1] v show ?case
    by auto
qed

lemma loop_visits_all:
  "loop ss i st = Return st' \<Longrightarrow> map fst (iterations ss i st) = ss"
  by (induction ss arbitrary: i st) (auto split: if_splits)

lemma unhealthy_first_entry_returned:
  assumes "\<not> Healthy first" and "ActiveConnections first \<noteq> - 1"
    and "\<forall>s\<in>set rest. Healthy s \<longrightarrow> ActiveConnections first \<le> ActiveConnections s"
    and "\<not> Mu first" and "\<forall>s\<in>set rest. \<not> Mu s"
  shows "nextServerLeastActive (first # rest) = Return 0"
proof -
  have "loop (first # rest) 0 (ActiveConnections first, 0) = Return (ActiveConnections first, 0)"
    by (rule loop_keeps) (use assms in auto)
  then show ?thesis
    by (simp add: nextServerLeastActive_def)
qed

lemma loop_strict:
  assumes "loop ss i (l, b) = Return (l', b')"
    and "\<forall>s\<in>set ss. Healthy s \<longrightarrow> ActiveConnections s \<noteq> - 1"
    and "l \<noteq> - 1" "b < i" "b' \<noteq> b"
  shows "l' < l"
  using assms
proof (induction ss arbitrary: i l b)
  case Nil
  then show ?case by simp
next
  case (Cons s ss)
  from Cons.prems(1) have free: "\<not> Mu s"
    by (auto split: if_splits)
  obtain l1 b1 where v: "visit s i (l, b) = (l1, b1)"
    by (cases "visit s i (l, b)") auto
  with Cons.prems(1) free have run: "loop ss (Suc i) (l1, b1) = Return (l', b')"
    by simp
  from Cons.prems(2) have rest: "\<forall>s\<in>set ss. Healthy s \<longrightarrow> ActiveConnections s \<noteq> - 1"
    and this_one: "Healthy s \<longrightarrow> ActiveConnections s \<noteq> - 1"
    by auto
  from v Cons.prems(3) this_one
  have step: "(l1 = l \<and> b1 = b) \<or> (l1 < l \<and> b1 = i)" and l1: "l1 \<noteq> - 1"
    by (auto simp: visit_def split: if_splits)
  from step Cons.prems(4) have b1: "b1 < Suc i"
    by auto
  show ?case
  proof (cases "b' = b1")
    case True
    with loop_origin [OF run] b1 have "l' = l1"
      by auto
    with step True Cons.prems(5) show ?thesis
      by auto
  next
    case False
    from Cons.IH [OF run rest l1 b1 False] step show ?thesis
      by auto
  qed
qed

lemma loop_earliest:
  assumes "loop ss i (l, b) = Return (l', b')"
    and "\<forall>s\<in>set ss. Healthy s \<longrightarrow> ActiveConnections s \<noteq> - 1"
    and "l \<noteq> - 1" "b < i"
  shows "\<forall>j<length ss. Healthy (ss ! j) \<and> i + j < b' \<longrightarrow> l' < ActiveConnections (ss ! j)"
  using assms
proof (induction ss arbitrary: i l b)
  case Nil
  then show ?case by simp
next
  case (Cons s ss)
  from Cons.prems(1) have free: "\<not> Mu s"
    by (auto split: if_splits)
  obtain l1 b1 where v: "visit s i (l, b) = (l1, b1)"
    by (cases "visit s i (l, b)") auto
  with Cons.prems(1) free have run: "loop ss (Suc i) (l1, b1) = Return (l', b')"
    by simp
  from Cons.prems(2) have rest: "\<forall>s\<in>set ss. Healthy s \<longrightarrow> ActiveConnections s \<noteq> - 1"
    and this_one: "Healthy s \<longrightarrow> ActiveConnections s \<noteq> - 1"
    by auto
  from v Cons.prems(3) this_one
  have step: "(l1 = l \<and> b1 = b) \<or> (l1 < l \<and> b1 = i)" and l1: "l1 \<noteq> - 1"
    and below: "Healthy s \<longrightarrow> l1 \<le> ActiveConnections s"
    by (auto simp: visit_def split: if_splits)
  from step Cons.prems(4) have b1: "b1 < Suc i"
    by auto
  note later = Cons.IH [OF run rest l1 b1]
  show ?case
  proof (intro allI impI)
    fix j
    assume j: "j < length (s # ss)" and h: "Healthy ((s # ss) ! j) \<and> i + j < b'"
    show "l' < ActiveConnections ((s # ss) ! j)"
    proof (cases j)
      case 0
      with h b1 have "b' \<noteq> b1"
        by auto
      from loop_strict [OF run rest l1 b1 this] below h 0 show ?thesis
        by auto
    next
      case (Suc n)
      with j h later show ?thesis
        by auto
    qed
  qed
qed

text \<open>
  What the selector does get right: when the first pool entry is healthy (and no healthy
  count is -1), it returns a healthy server with the least count among the healthy ones,
  and the earliest such server in pool order.
\<close>

lemma healthy_first_entry:
  assumes "servers \<noteq> []" and "Healthy (servers ! 0)"
    and "\<forall>s\<in>set servers. Healthy s \<longrightarrow> ActiveConnections s \<noteq> - 1"
    and "\<forall>s\<in>set servers. \<not> Mu s"
  shows "\<exists>k<length servers. nextServerLeastActive servers = Return k
           \<and> Healthy (servers ! k)
           \<and> (\<forall>j<length servers. Healthy (servers ! j) \<longrightarrow>
                 ActiveConnections (servers ! k) \<le> ActiveConnections (servers ! j)
                 \<and> (j < k \<longrightarrow> ActiveConnections (servers ! k) < ActiveConnections (servers ! j)))"
proof -
  from assms(1) obtain first rest where sv: "servers = first # rest"
    by (cases servers) auto
  with assms(2,3) have seed: "Healthy first" "ActiveConnections first \<noteq> - 1"
    by auto
  then have v: "visit first 0 (ActiveConnections first, 0) = (ActiveConnections first, 0)"
    by (simp add: visit_def)
  from loop_unblocked [OF assms(4)] obtain l' b'
    where run: "loop servers 0 (ActiveConnections first, 0) = Return (l', b')"
    by (metis surj_pair)
  with sv v assms(4) have tail: "loop rest (Suc 0) (ActiveConnections first, 0) = Return (l', b')"
    by simp
  from sv assms(3) have rest_ok: "\<forall>s\<in>set rest. Healthy s \<longrightarrow> ActiveConnections s \<noteq> - 1"
    by simp
  from loop_origin [OF run] sv seed
  have pick: "b' < length servers" "ActiveConnections (servers ! b') = l'" "Healthy (servers ! b')"
    by auto
  from loop_least [OF run assms(3)]
  have least: "\<forall>j<length servers. Healthy (servers ! j) \<longrightarrow> l' \<le> ActiveConnections (servers ! j)"
    by simp
  from loop_earliest [OF tail rest_ok seed(2)]
  have later: "\<forall>j<length rest. Healthy (rest ! j) \<and> Suc j < b' \<longrightarrow> l' < ActiveConnections (rest ! j)"
    by simp
  have first_case: "l' < ActiveConnections first" if "0 < b'"
  proof -
    from that have "b' \<noteq> 0" by simp
    from loop_strict [OF tail rest_ok seed(2) _ this] show ?thesis by simp
  qed
  have earliest: "l' < ActiveConnections (servers ! j)"
    if "j < length servers" "Healthy (servers ! j)" "j < b'" for j
  proof (cases j)
    case 0
    with that first_case sv show ?thesis by simp
  next
    case (Suc n)
    with that later sv show ?thesis by auto
  qed
  from pick least earliest run sv show ?thesis
    by (auto simp: nextServerLeastActive_def)
qed

text \<open>
  On a pool without a healthy server the scan changes nothing, and the seed, the first
  pool entry, is returned.
\<close>

lemma no_healthy_returns_first:
  assumes "servers \<noteq> []"
    and "\<forall>s\<in>set servers. \<not> Healthy s"
    and "\<forall>s\<in>set servers. \<not> Mu s"
  shows "nextServerLeastActive servers = Return 0 \<and> \<not> Healthy (servers ! 0)"
proof -
  from assms(1) obtain first rest where sv: "servers = first # rest"
    by (cases servers) auto
  have "loop servers 0 (ActiveConnections first, 0) = Return (ActiveConnections first, 0)"
    by (rule loop_keeps) (use assms in auto)
  with sv assms(2) show ?thesis
    by (simp add: nextServerLeastActive_def)
qed


lemma sentinel_value_replaced:
  "nextServerLeastActive [srv True (- 1), srv True 5] = Return 1"
  by (simp add: nextServerLeastActive_def visit_def srv_def)

subsection \<open>Claim C2\<close>

text \<open>
  C2 says that on a pool with at least one healthy server the selector returns a healthy
  server, and that on the pool [(unhealthy, 0 connections), (healthy, 3 connections)] it
  returns index 1. The code does not: lines 62-63 seed the locals from \<open>servers[0]\<close>
  whatever its health, and the healthy entry's count 3 is not below the seed 0, so the
  unhealthy entry at index 0 is returned. \<open>unhealthy_first_entry_returned\<close> is the
  general form of this input; with a healthy first entry the claim holds
  (\<open>healthy_first_entry\<close>).
\<close>

theorem selector_returns_unhealthy_seed:
  "nextServerLeastActive [srv False 0, srv True 3] = Return 0
   \<and> Healthy ([srv False 0, srv True 3] ! 0) = False
   \<and> Healthy ([srv False 0, srv True 3] ! 1) = True"
  by (simp add: nextServerLeastActive_def visit_def srv_def)

subsection \<open>Claim C3\<close>

text \<open>
  C3 says that on a non-empty pool with no healthy server the selection surfaces a
  request-level failure instead of returning an unhealthy server as if it were valid.
  On the pool [(unhealthy, 0), (unhealthy, 0)] the code returns the unhealthy entry at
  index 0: the locals are seeded from \<open>servers[0]\<close> whatever its health (lines 62-63),
  no entry passes the test of line 68, and line 77 returns the seed as an ordinary
  result. It is the defect of C2, and against the function's comment ("finds a healthy
  server ... and returns it"). The process reaches that pool when the probes of both
  servers come back with status 503; the handler of the next request then locks the
  unhealthy server 0, increments its counter and forwards to it.
\<close>

theorem no_healthy_returns_unhealthy:
  "nextServerLeastActive [srv False 0, srv False 0] = Return 0
   \<and> Healthy ([srv False 0, srv False 0] ! 0) = False
   \<and> run 64 [ProbeDone 0 (Some \<lparr>StatusCode = 503, CloseError = None\<rparr>, None),
             Checker 0, Checker 0, Checker 0, Checker 0,
             ProbeDone 1 (Some \<lparr>StatusCode = 503, CloseError = None\<rparr>, None),
             Checker 1, Checker 1, Checker 1, Checker 1]
        (serving [srv True 0, srv True 0] '':8080'')
       = serving [srv False 0, srv False 0] '':8080''
   \<and> run 64 [Arrive, Handler 0, Handler 0, Handler 0, Handler 0, Handler 0, Handler 0,
             Handler 0, Handler 0]
        (serving [srv False 0, srv False 0] '':8080'')
       = \<lparr>pool = [\<lparr>URL = ''http://backend'', ActiveConnections = 1, Mu = True, Healthy = False\<rparr>,
                  srv False 0],
          handlers = [AtServe 0], checkers = [AtTick, AtTick],
          logs = [''Starting server on port :8080''], fatal = None\<rparr>"
  by (simp add: nextServerLeastActive_def visit_def srv_def serving_def step_def
      handler_step_def at_def try_lock_def release_def add_connections_def lock_def unlock_def
      probe_done_def checker_step_def close_body_def probe_healthy_def wrap_def)

subsection \<open>Claim C4\<close>



text \<open>
  On the pool [(healthy, 2), (healthy, 0), (healthy, 5)] the entry at index 1 is returned.
\<close>

lemma scenario_A: "nextServerLeastActive [srv True 2, srv True 0, srv True 5] = Return 1"
  by (simp add: nextServerLeastActive_def visit_def srv_def)

subsection \<open>Claim C7\<close>

text \<open>
  C7 says that among healthy servers tied at the minimum count the earliest in pool order
  is returned. On the pool [(unhealthy, 0), (healthy, 0), (healthy, 0)] the two healthy
  servers are tied at 0, the minimum, and the code returns neither: no healthy count is
  below the seed taken from the unhealthy entry at index 0, so that entry is returned. It
  is the defect of C2 (\<open>unhealthy_first_entry_returned\<close>); with a healthy first entry
  the earliest of the tied servers is returned (\<open>healthy_first_entry\<close>).
\<close>

theorem tie_lost_to_unhealthy_seed:
  "nextServerLeastActive [srv False 0, srv True 0, srv True 0] = Return 0
   \<and> Healthy ([srv False 0, srv True 0, srv True 0] ! 0) = False
   \<and> Healthy ([srv False 0, srv True 0, srv True 0] ! 1) = True
   \<and> Healthy ([srv False 0, srv True 0, srv True 0] ! 2) = True"
  by (simp add: nextServerLeastActive_def visit_def srv_def)

subsection \<open>Claim C8\<close>

text \<open>
  C8: on every non-empty pool in which every server's count is at least 0, the condition
  \<open>leastActiveConnections == -1\<close> of line 69 is never true. At the start of every
  iteration the loop executes, \<open>leastActiveConnections\<close> is at least 0, so the
  sentinel comparison is false whenever it is evaluated.
\<close>

theorem sentinel_never_fires:
  assumes "servers \<noteq> []"
    and "\<forall>s\<in>set servers. 0 \<le> ActiveConnections s"
  shows "\<forall>it\<in>set (scan_iterations servers). 0 \<le> fst (snd it) \<and> \<not> sentinel_fires it"
proof -
  from assms(1) obtain first rest where sv: "servers = first # rest"
    by (cases servers) auto
  with assms(2) have seed: "0 \<le> ActiveConnections first"
    by simp
  from iterations_nonneg [OF seed assms(2)]
  have "\<forall>it\<in>set (iterations servers 0 (ActiveConnections first, 0)). 0 \<le> fst (snd it)" .
  with sv have nonneg: "\<forall>it\<in>set (scan_iterations servers). 0 \<le> fst (snd it)"
    by (simp add: scan_iterations_def)
  have "\<not> sentinel_fires it" if "0 \<le> fst (snd it)" for it
    using that by (cases it) (auto simp: sentinel_fires_def)
  with nonneg show ?thesis
    by blast
qed

theorem sentinel_never_fires_witness:
  "[srv False 3, srv True 1, srv True 0] \<noteq> []
   \<and> list_all (\<lambda>s. 0 \<le> ActiveConnections s) [srv False 3, srv True 1, srv True 0]
   \<and> length (scan_iterations [srv False 3, srv True 1, srv True 0]) = 3
   \<and> list_all (\<lambda>it. 0 \<le> fst (snd it) \<and> \<not> sentinel_fires it)
        (scan_iterations [srv False 3, srv True 1, srv True 0])"
  using sentinel_never_fires [of "[srv False 3, srv True 1, srv True 0]"]
  by (simp add: srv_def scan_iterations_def visit_def list_all_iff)

section \<open>Properties of the health check\<close>

lemma health_check_response:
  assumes "\<not> Mu s"
  shows "\<exists>logged. health_check (Some res, None) s
           = Return (s\<lparr>Healthy := (StatusCode res < 500)\<rparr>, logged)"
  using assms
  by (auto simp: health_check_def close_body_def probe_healthy_def not_le split: option.splits)

lemma health_check_redirect_error:
  assumes "\<not> Mu s"
  shows "\<exists>logged. health_check (Some res, Some err) s = Return (s\<lparr>Healthy := False\<rparr>, logged)"
  using assms
  by (auto simp: health_check_def close_body_def probe_healthy_def split: option.splits)

lemma health_check_no_response:
  assumes "\<not> Mu s"
  shows "health_check (None, err) s = Panic NilPointerDereference"
  using assms by (simp add: health_check_def close_body_def)

subsection \<open>Claim C5\<close>

text \<open>
  C5 says that a probe that fails to complete sets \<open>Healthy\<close> to false, without a crash
  or panic. When \<open>http.Get\<close> fails (connection refused), \<open>res\<close> is nil, and line
  108 calls \<open>res.Body.Close()\<close> before line 113 tests \<open>err\<close>: the iteration
  panics and \<open>Healthy\<close> is not written. The panic is in the checker's goroutine, so
  the process dies, with the server still marked healthy. The comment at line 112 ("If no
  response or status code is 5xx") names the case the code misses. The two status-code
  cases of the claim hold (\<open>health_check_response\<close>).
\<close>

theorem failed_probe_panics:
  "health_check (None, Some ''connection refused'') (srv True 0) = Panic NilPointerDereference
   \<and> fatal (run 64 [ProbeDone 0 (None, Some ''connection refused''), Checker 0, Checker 0]
        (serving [srv True 0] '':8080'')) = Some NilPointerDereference
   \<and> map Healthy (pool (run 64 [ProbeDone 0 (None, Some ''connection refused''), Checker 0, Checker 0]
        (serving [srv True 0] '':8080''))) = [True]"
  by (simp add: health_check_def close_body_def srv_def serving_def step_def probe_done_def
      checker_step_def lock_def)

section \<open>Properties of configuration and startup\<close>

subsection \<open>Claim C10\<close>

text \<open>
  C10: \<open>loadConfig\<close> returns an error exactly when reading the file fails or the
  unmarshalling fails, and it validates nothing: whatever configuration the
  unmarshalling leaves without an error is returned as it is, with no error, also when
  its server list, interval string or listen port is empty.
\<close>

theorem loadConfig_errors:
  "(snd (loadConfig readFile unmarshal path) \<noteq> None \<longleftrightarrow>
      (\<exists>err. readFile path = Inl err)
      \<or> (\<exists>bytes err. readFile path = Inr bytes \<and> snd (unmarshal bytes zero_Config) = Some err))
   \<and> (\<forall>bytes config. readFile path = Inr bytes \<and> unmarshal bytes zero_Config = (config, None)
         \<longrightarrow> loadConfig readFile unmarshal path = (config, None))"
  by (auto simp: loadConfig_def split: sum.splits prod.splits option.splits)

theorem loadConfig_errors_witness:
  "loadConfig (\<lambda>path. Inr ''{}'') (\<lambda>bytes config. (config, None)) ''config.jsonc''
     = (\<lparr>HealthCheckInterval = [], Servers = [], ListenPort = []\<rparr>, None)
   \<and> snd (loadConfig (\<lambda>path. Inl ''no such file'') (\<lambda>bytes config. (config, None))
        ''config.jsonc'') \<noteq> None
   \<and> snd (loadConfig (\<lambda>path. Inr ''{'') (\<lambda>bytes config. (config, Some ''unexpected end''))
        ''config.jsonc'') \<noteq> None"
  using loadConfig_errors [of "\<lambda>path. Inr ''{}''" "\<lambda>bytes config. (config, None)" "''config.jsonc''"]
    loadConfig_errors [of "\<lambda>path. Inl ''no such file''" "\<lambda>bytes config. (config, None)"
      "''config.jsonc''"]
    loadConfig_errors [of "\<lambda>path. Inr ''{''" "\<lambda>bytes config. (config, Some ''unexpected end'')"
      "''config.jsonc''"]
  by (simp add: zero_Config_def)

lemma empty_pool_not_rejected:
  assumes "loadConfig readFile unmarshal ''config.jsonc'' = (config, None)"
    and "Servers config = []"
    and "parseDuration (HealthCheckInterval config) = Inr d"
    and "listenAndServe (ListenPort config) = None"
  shows "main readFile unmarshal parseDuration urlParse listenAndServe
           = Serving (serving [] (ListenPort config))"
  using assms by (simp add: main_def)

subsection \<open>Claim C6\<close>

text \<open>
  C6 says that an empty backend pool aborts the process at startup and that selection
  over an empty pool is never reached. Nothing in \<open>loadConfig\<close> or \<open>main\<close> looks at
  the length of the server list: with \<open>"servers": []\<close> the process starts no health
  checker and serves, and the first request evaluates \<open>servers[0]\<close> at line 62 on
  the empty slice and panics.
\<close>

theorem empty_pool_is_served:
  "example_main [] = Serving (serving [] '':8080'')
   \<and> nextServerLeastActive [] = Panic IndexOutOfRange
   \<and> handlers (run 64 [Arrive, Handler 0] (serving [] '':8080'')) = [Panicked IndexOutOfRange]"
  by (simp add: example_main_def main_def loadConfig_def zero_Config_def
      nextServerLeastActive_def serving_def step_def handler_step_def at_def)

section \<open>Properties of the running process\<close>

subsection \<open>The selector and the health check inside their goroutines\<close>

text \<open>
  A handler that runs its selector with no other goroutine taking a step in between
  ends up with the server \<open>nextServerLeastActive\<close> returns for the pool, or with
  its panic.
\<close>

lemma visit_ignores_Mu: "visit (server\<lparr>Mu := b\<rparr>) i st = visit server i st"
  by (cases st) (simp add: visit_def)

lemma scan_iteration_alone:
  assumes "t < length (handlers s)" "fatal s = None"
    and "handlers s ! t = AtScanLock i least best"
    and "i < length (pool s)" "\<not> Mu (pool s ! i)"
    and "visit (pool s ! i) i (least, best) = (least', best')"
  shows "step bits (Handler t) (step bits (Handler t) s) = at t (AtScanLock (Suc i) least' best') s"
proof -
  let ?s1 = "s\<lparr>pool := (pool s)[i := (pool s ! i)\<lparr>Mu := True\<rparr>],
               handlers := (handlers s)[t := AtScanBody i least best]\<rparr>"
  from assms have one: "step bits (Handler t) s = ?s1"
    by (simp add: step_def handler_step_def try_lock_def lock_def at_def)
  from assms(5) have restored: "(pool s ! i)\<lparr>Mu := False\<rparr> = pool s ! i"
    by simp
  from assms have "step bits (Handler t) ?s1 = at t (AtScanLock (Suc i) least' best') s"
    by (simp add: step_def handler_step_def release_def unlock_def at_def visit_ignores_Mu restored)
  with one show ?thesis
    by simp
qed

lemma run_append: "run bits (es @ es') s = run bits es' (run bits es s)"
  by (induction es arbitrary: s) simp_all

lemma scan_alone:
  assumes "t < length (handlers s)" "fatal s = None"
    and "handlers s ! t = AtScanLock i least best"
    and "i \<le> length (pool s)"
    and "loop (drop i (pool s)) i (least, best) = Return (least', best')"
  shows "run bits (replicate (2 * (length (pool s) - i) + 1) (Handler t)) s = at t (AtLock best') s"
  using assms
proof (induction "length (pool s) - i" arbitrary: s i least best)
  case 0
  then show ?case
    by (simp add: step_def handler_step_def)
next
  case (Suc n)
  from Suc.hyps(2) have i: "i < length (pool s)"
    by simp
  then have unfold: "drop i (pool s) = pool s ! i # drop (Suc i) (pool s)"
    by (simp add: Cons_nth_drop_Suc)
  obtain l1 b1 where v: "visit (pool s ! i) i (least, best) = (l1, b1)"
    by (cases "visit (pool s ! i) i (least, best)") auto
  from Suc.prems(5) unfold v have free: "\<not> Mu (pool s ! i)"
    and rest: "loop (drop (Suc i) (pool s)) (Suc i) (l1, b1) = Return (least', best')"
    by (auto split: if_splits)
  let ?s2 = "at t (AtScanLock (Suc i) l1 b1) s"
  have two: "step bits (Handler t) (step bits (Handler t) s) = ?s2"
    by (rule scan_iteration_alone [OF Suc.prems(1,2,3) i free v])
  have "run bits (replicate (2 * (length (pool ?s2) - Suc i) + 1) (Handler t)) ?s2
      = at t (AtLock best') ?s2"
  proof (rule Suc.hyps(1))
    show "n = length (pool ?s2) - Suc i"
      using Suc.hyps(2) by (simp add: at_def)
    show "t < length (handlers ?s2)" "fatal ?s2 = None"
      "handlers ?s2 ! t = AtScanLock (Suc i) l1 b1" "Suc i \<le> length (pool ?s2)"
      using Suc.prems(1,2) i by (simp_all add: at_def)
    show "loop (drop (Suc i) (pool ?s2)) (Suc i) (l1, b1) = Return (least', best')"
      using rest by (simp add: at_def)
  qed
  moreover have "replicate (2 * (length (pool s) - i) + 1) (Handler t)
      = [Handler t, Handler t] @ replicate (2 * (length (pool s) - Suc i) + 1) (Handler t)"
    using i by (simp add: Suc_diff_Suc flip: replicate_Suc)
  ultimately show ?case
    using two by (simp add: at_def)
qed

lemma selection_alone:
  assumes "t < length (handlers s)" "fatal s = None"
    and "handlers s ! t = AtSelect"
  shows "nextServerLeastActive (pool s) = Return k \<Longrightarrow>
           run bits (replicate (2 * length (pool s) + 2) (Handler t)) s = at t (AtLock k) s"
    and "nextServerLeastActive (pool s) = Panic p \<Longrightarrow>
           step bits (Handler t) s = at t (Panicked p) s"
proof -
  assume ret: "nextServerLeastActive (pool s) = Return k"
  then obtain first rest where p: "pool s = first # rest"
    by (cases "pool s") (auto simp: nextServerLeastActive_def)
  with ret obtain least' where
    l: "loop (drop 0 (pool s)) 0 (ActiveConnections first, 0) = Return (least', k)"
    by (auto simp: nextServerLeastActive_def split: outcome.splits)
  let ?s1 = "at t (AtScanLock 0 (ActiveConnections first) 0) s"
  from assms p have one: "step bits (Handler t) s = ?s1"
    by (simp add: step_def handler_step_def)
  have "run bits (replicate (2 * (length (pool ?s1) - 0) + 1) (Handler t)) ?s1 = at t (AtLock k) ?s1"
    by (rule scan_alone) (use assms l in \<open>simp_all add: at_def\<close>)
  with one show "run bits (replicate (2 * length (pool s) + 2) (Handler t)) s = at t (AtLock k) s"
    by (simp add: at_def)
next
  assume "nextServerLeastActive (pool s) = Panic p"
  then have "pool s = [] \<and> p = IndexOutOfRange"
    by (cases "pool s")
      (auto simp: nextServerLeastActive_def loop_no_panic split: outcome.splits if_splits)
  with assms show "step bits (Handler t) s = at t (Panicked p) s"
    by (simp add: step_def handler_step_def)
qed

text \<open>
  In the same way the steps of a health checker, from a tick to its Unlock, do to the
  server what \<open>health_check\<close> does; its panic kills the process before
  \<open>Healthy\<close> is written.
\<close>

lemma check_alone:
  assumes "k < length (checkers s)" "fatal s = None" "checkers s ! k = AtTick"
    and "k < length (pool s)"
  shows "health_check p (pool s ! k) = Return (server', logged) \<Longrightarrow>
           run bits [ProbeDone k p, Checker k, Checker k, Checker k, Checker k] s
             = s\<lparr>pool := (pool s)[k := server'], logs := logs s @ logged\<rparr>"
    and "health_check p (pool s ! k) = Panic e \<Longrightarrow>
           fatal (run bits [ProbeDone k p, Checker k, Checker k] s) = Some e
           \<and> map Healthy (pool (run bits [ProbeDone k p, Checker k, Checker k] s)) = map Healthy (pool s)"
proof -
  assume ok: "health_check p (pool s ! k) = Return (server', logged)"
  then have free: "\<not> Mu (pool s ! k)" and closed: "close_body p = Inr logged"
    and server': "server' = (pool s ! k)\<lparr>Healthy := probe_healthy p\<rparr>"
    by (auto simp: health_check_def split: if_splits sum.splits)
  from free have same: "(pool s ! k)\<lparr>Healthy := probe_healthy p, Mu := False\<rparr>
      = (pool s ! k)\<lparr>Healthy := probe_healthy p\<rparr>"
    by (cases "pool s ! k") simp
  from assms(3) have idle: "(checkers s)[k := AtTick] = checkers s"
    by (metis list_update_id)
  from assms free closed show "run bits [ProbeDone k p, Checker k, Checker k, Checker k, Checker k] s
      = s\<lparr>pool := (pool s)[k := server'], logs := logs s @ logged\<rparr>"
    by (simp add: step_def probe_done_def checker_step_def lock_def unlock_def server' same idle)
next
  assume "health_check p (pool s ! k) = Panic e"
  then have free: "\<not> Mu (pool s ! k)" and closed: "close_body p = Inl e"
    by (auto simp: health_check_def split: if_splits sum.splits)
  have "map Healthy ((pool s)[k := (pool s ! k)\<lparr>Mu := True\<rparr>]) = map Healthy (pool s)"
    using assms(4) by (simp add: list_eq_iff_nth_eq nth_list_update)
  with assms free closed
  show "fatal (run bits [ProbeDone k p, Checker k, Checker k] s) = Some e
      \<and> map Healthy (pool (run bits [ProbeDone k p, Checker k, Checker k] s)) = map Healthy (pool s)"
    by (simp add: step_def probe_done_def checker_step_def lock_def)
qed

subsection \<open>Every counter is the number of handlers it accounts for\<close>

lemma wrap_add: "wrap bits (wrap bits x + d) = wrap bits (x + d)"
proof -
  have "((x + 2 ^ (bits - 1)) mod 2 ^ bits + d) mod 2 ^ bits
      = (x + 2 ^ (bits - 1) + d) mod (2 ^ bits :: int)"
    by (rule mod_add_left_eq)
  then show ?thesis
    by (simp add: wrap_def algebra_simps)
qed

lemma wrap_diff: "wrap bits (wrap bits x - d) = wrap bits (x - d)"
  using wrap_add [of bits x "- d"] by simp

lemma wrap_id:
  assumes "0 < bits" "- (2 ^ (bits - 1)) \<le> x" "x < 2 ^ (bits - 1)"
  shows "wrap bits x = x"
proof -
  from assms(1) have "(2::int) ^ bits = 2 * 2 ^ (bits - 1)"
    by (cases bits) simp_all
  with assms(2,3) have "(x + 2 ^ (bits - 1)) mod 2 ^ bits = x + 2 ^ (bits - 1)"
    by (simp add: mod_pos_pos_trivial)
  then show ?thesis
    by (simp add: wrap_def)
qed


lemma tally_update:
  "t < length hs \<Longrightarrow>
     tally on k (hs[t := pc]) =
       tally on k hs - (if on (hs ! t) = Some k then 1 else 0)
         + (if on pc = Some k then 1 else 0)"
proof (induction hs arbitrary: t)
  case Nil
  then show ?case by simp
next
  case (Cons h hs)
  show ?case
  proof (cases t)
    case 0
    then show ?thesis by (simp add: tally_def)
  next
    case (Suc n)
    with Cons.prems have "n < length hs" by simp
    from Cons.IH [OF this] Suc show ?thesis by (simp add: tally_def)
  qed
qed

lemma tally_append:
  "tally on k (hs @ [h]) = tally on k hs + (if on h = Some k then 1 else 0)"
  by (simp add: tally_def)

lemma tally_nonneg: "0 \<le> tally on k hs"
  by (induction hs) (auto simp: tally_def)

lemma tally_bounds: "0 \<le> tally on k hs \<and> tally on k hs \<le> int (length hs)"
  by (induction hs) (auto simp: tally_def)

lemma tally_member:
  "t < length hs \<Longrightarrow> on (hs ! t) = Some k \<Longrightarrow> 1 \<le> tally on k hs"
proof (induction hs arbitrary: t)
  case Nil
  then show ?case by simp
next
  case (Cons h hs)
  show ?case
  proof (cases t)
    case 0
    with Cons.prems tally_nonneg [of on k hs] show ?thesis
      by (simp add: tally_def)
  next
    case (Suc n)
    with Cons.prems Cons.IH [of n] show ?thesis
      by (auto simp: tally_def)
  qed
qed

lemma count_after_Mu_update:
  "ActiveConnections (ss[k := (ss ! k)\<lparr>Mu := b\<rparr>] ! j) = ActiveConnections (ss ! j)"
proof (cases "k < length ss")
  case True
  then show ?thesis by (cases "j = k") simp_all
next
  case False
  then show ?thesis by (simp add: not_less list_update_beyond)
qed

lemma lock_keeps:
  "lock k ss = Some ss' \<Longrightarrow>
     length ss' = length ss \<and> (\<forall>j. ActiveConnections (ss' ! j) = ActiveConnections (ss ! j))"
  by (auto simp: lock_def count_after_Mu_update split: if_splits)

lemma unlock_keeps:
  "unlock k ss = Some ss' \<Longrightarrow>
     length ss' = length ss \<and> (\<forall>j. ActiveConnections (ss' ! j) = ActiveConnections (ss ! j))"
  by (auto simp: unlock_def count_after_Mu_update split: if_splits)

lemma accounted_at:
  assumes "accounted bits s" "t < length (handlers s)"
    and "counted_on pc = counted_on (handlers s ! t)"
  shows "accounted bits (at t pc s)"
  using assms by (simp add: accounted_def at_def tally_update)

lemma accounted_try_lock:
  assumes "accounted bits s" "t < length (handlers s)"
    and "counted_on pc = counted_on (handlers s ! t)"
  shows "accounted bits (try_lock t k pc s)"
  using assms
  by (auto simp: try_lock_def accounted_def at_def tally_update dest: lock_keeps
      split: option.splits)

lemma accounted_release:
  assumes "accounted bits s" "t < length (handlers s)"
    and "counted_on pc = counted_on (handlers s ! t)"
  shows "accounted bits (release t k pc s)"
  using assms
  by (auto simp: release_def accounted_def at_def tally_update dest: unlock_keeps
      split: option.splits)


lemma accounted_increment:
  assumes "accounted bits s" "t < length (handlers s)" "handlers s ! t = AtIncrement k"
  shows "accounted bits (at t (AtServe k) (add_connections bits k 1 s))"
  using assms
  by (auto simp: accounted_def at_def add_connections_def tally_update nth_list_update wrap_add)

lemma accounted_decrement:
  assumes "accounted bits s" "t < length (handlers s)" "handlers s ! t = AtDecrement k"
  shows "accounted bits (at t (AtDeferred2 k) (add_connections bits k (- 1) s))"
  using assms
  by (auto simp: accounted_def at_def add_connections_def tally_update nth_list_update wrap_diff)

lemma accounted_fatal: "accounted bits s \<Longrightarrow> accounted bits (s\<lparr>fatal := e\<rparr>)"
  by (simp add: accounted_def)

lemma accounted_handler_step:
  assumes "accounted bits s" "t < length (handlers s)"
  shows "accounted bits (handler_step bits t s)"
proof (cases "handlers s ! t")
  case AtSelect
  with assms show ?thesis
    by (auto simp: handler_step_def intro!: accounted_at split: list.splits)
next
  case (AtScanLock i least best)
  with assms show ?thesis
    by (auto simp: handler_step_def intro!: accounted_at accounted_try_lock)
next
  case (AtScanBody i least best)
  with assms show ?thesis
    by (auto simp: handler_step_def intro!: accounted_release split: prod.splits)
next
  case (AtLock k)
  with assms show ?thesis
    by (auto simp: handler_step_def intro!: accounted_try_lock)
next
  case (AtIncrement k)
  with assms show ?thesis
    by (simp add: handler_step_def accounted_increment)
next
  case (AtRelock k)
  with assms show ?thesis
    by (auto simp: handler_step_def intro!: accounted_try_lock)
next
  case (AtDecrement k)
  with assms show ?thesis
    by (simp add: handler_step_def accounted_decrement)
next
  case (AtDeferred2 k)
  with assms show ?thesis
    by (auto simp: handler_step_def intro!: accounted_release)
next
  case (AtDeferred1 k)
  with assms show ?thesis
    by (auto simp: handler_step_def intro!: accounted_release)
qed (use assms in \<open>simp_all add: handler_step_def\<close>)


lemma accounted_serve_returns:
  assumes "accounted bits s" "t < length (handlers s)"
  shows "accounted bits (serve_returns t s)"
  using assms by (auto simp: serve_returns_def intro!: accounted_at split: hpc.splits)

lemma accounted_serve_panics:
  assumes "accounted bits s" "t < length (handlers s)"
  shows "accounted bits (serve_panics t s)"
  using assms by (auto simp: serve_panics_def intro!: accounted_release split: hpc.splits)

lemma accounted_probe_done: "accounted bits s \<Longrightarrow> accounted bits (probe_done k p s)"
  by (auto simp: probe_done_def accounted_def split: cpc.splits)

lemma count_after_Healthy_update:
  "ActiveConnections (ss[k := (ss ! k)\<lparr>Healthy := b\<rparr>] ! j) = ActiveConnections (ss ! j)"
proof (cases "k < length ss")
  case True
  then show ?thesis by (cases "j = k") simp_all
next
  case False
  then show ?thesis by (simp add: not_less list_update_beyond)
qed

lemma accounted_checker_step: "accounted bits s \<Longrightarrow> accounted bits (checker_step k s)"
  by (auto simp: checker_step_def accounted_def count_after_Healthy_update
      dest: lock_keeps unlock_keeps split: cpc.splits option.splits sum.splits)

lemma accounted_step: "accounted bits s \<Longrightarrow> accounted bits (step bits e s)"
proof (cases e)
  case Arrive
  assume "accounted bits s"
  with Arrive show ?thesis
    by (simp add: step_def accounted_def tally_append)
qed (auto simp: step_def accounted_handler_step accounted_serve_returns
      accounted_serve_panics accounted_probe_done accounted_checker_step)

lemma accounted_run: "accounted bits s \<Longrightarrow> accounted bits (run bits es s)"
  by (induction es arbitrary: s) (simp_all add: accounted_step)

lemma length_pool_handler_ops:
  "length (pool (at t pc s)) = length (pool s)"
  "length (pool (try_lock t k pc s)) = length (pool s)"
  "length (pool (release t k pc s)) = length (pool s)"
  "length (pool (add_connections bits k d s)) = length (pool s)"
  by (auto simp: at_def try_lock_def release_def add_connections_def lock_def unlock_def
      split: option.splits)

lemma length_pool_handler_step: "length (pool (handler_step bits t s)) = length (pool s)"
  by (cases "handlers s ! t")
    (auto simp: handler_step_def length_pool_handler_ops split: list.splits prod.splits)

lemma length_pool_step: "length (pool (step bits e s)) = length (pool s)"
  by (cases e)
    (auto simp: step_def length_pool_handler_step length_pool_handler_ops
      serve_returns_def serve_panics_def probe_done_def checker_step_def lock_def unlock_def
      split: hpc.splits cpc.splits option.splits sum.splits)

lemma length_pool_run: "length (pool (run bits es s)) = length (pool s)"
  by (induction es arbitrary: s) (simp_all add: length_pool_step)

text \<open>There are at most as many handlers as requests have arrived.\<close>

lemma handlers_handler_ops:
  "handlers (at t pc s) = (handlers s)[t := pc]"
  "handlers (try_lock t k pc s) = handlers s \<or> handlers (try_lock t k pc s) = (handlers s)[t := pc]"
  "handlers (release t k pc s) = handlers s \<or> handlers (release t k pc s) = (handlers s)[t := pc]"
  "handlers (add_connections bits k d s) = handlers s"
  by (auto simp: at_def try_lock_def release_def add_connections_def split: option.splits)

lemma others_untouched:
  assumes "hs' = hs \<or> hs' = hs[t' := pc]" and "t \<noteq> t'"
  shows "hs' ! t = hs ! t \<and> length hs' = length hs"
  using assms by auto

lemma handler_step_moves:
  "\<exists>pc. handlers (handler_step bits t s) = handlers s
       \<or> handlers (handler_step bits t s) = (handlers s)[t := pc]"
proof (cases "handlers s ! t")
  case AtSelect
  then show ?thesis
    by (cases "pool s") (auto simp: handler_step_def handlers_handler_ops)
next
  case (AtScanLock i least best)
  then show ?thesis
    using handlers_handler_ops(2) [of t i "AtScanBody i least best" s]
    by (auto simp: handler_step_def handlers_handler_ops(1))
next
  case (AtScanBody i least best)
  obtain least' best' where "visit (pool s ! i) i (least, best) = (least', best')"
    by (cases "visit (pool s ! i) i (least, best)") auto
  with AtScanBody show ?thesis
    using handlers_handler_ops(3) [of t i "AtScanLock (Suc i) least' best'" s]
    by (auto simp: handler_step_def)
next
  case (AtLock k)
  then show ?thesis
    using handlers_handler_ops(2) [of t k "AtIncrement k" s]
    by (auto simp: handler_step_def)
next
  case (AtIncrement k)
  then show ?thesis
    by (auto simp: handler_step_def handlers_handler_ops)
next
  case (AtRelock k)
  then show ?thesis
    using handlers_handler_ops(2) [of t k "AtDecrement k" s]
    by (auto simp: handler_step_def)
next
  case (AtDecrement k)
  then show ?thesis
    by (auto simp: handler_step_def handlers_handler_ops)
next
  case (AtDeferred2 k)
  then show ?thesis
    using handlers_handler_ops(3) [of t k "AtDeferred1 k" s]
    by (auto simp: handler_step_def)
next
  case (AtDeferred1 k)
  then show ?thesis
    using handlers_handler_ops(3) [of t k Finished s]
    by (auto simp: handler_step_def)
qed (simp_all add: handler_step_def)

lemma handler_step_length: "length (handlers (handler_step bits t s)) = length (handlers s)"
  using handler_step_moves [of bits t s] by auto

lemma handler_step_frame:
  assumes "t \<noteq> t'"
  shows "handlers (handler_step bits t' s) ! t = handlers s ! t"
proof -
  from handler_step_moves [of bits t' s] obtain pc
    where "handlers (handler_step bits t' s) = handlers s
         \<or> handlers (handler_step bits t' s) = (handlers s)[t' := pc]" ..
  from others_untouched [OF this assms] show ?thesis ..
qed

lemma serve_moves:
  "\<exists>pc. handlers (serve_returns t s) = handlers s
       \<or> handlers (serve_returns t s) = (handlers s)[t := pc]"
  "\<exists>pc. handlers (serve_panics t s) = handlers s
       \<or> handlers (serve_panics t s) = (handlers s)[t := pc]"
proof -
  show "\<exists>pc. handlers (serve_returns t s) = handlers s
       \<or> handlers (serve_returns t s) = (handlers s)[t := pc]"
    by (cases "handlers s ! t") (auto simp: serve_returns_def handlers_handler_ops(1))
  show "\<exists>pc. handlers (serve_panics t s) = handlers s
       \<or> handlers (serve_panics t s) = (handlers s)[t := pc]"
  proof (cases "handlers s ! t")
    case (AtServe k)
    with handlers_handler_ops(3) [of t k "Aborted k" s] show ?thesis
      by (auto simp: serve_panics_def)
  qed (simp_all add: serve_panics_def)
qed

lemma serve_length:
  "length (handlers (serve_returns t s)) = length (handlers s)
   \<and> length (handlers (serve_panics t s)) = length (handlers s)"
  using serve_moves [of t s] by auto

lemma serve_frame:
  assumes "t \<noteq> t'"
  shows "handlers (serve_returns t' s) ! t = handlers s ! t
       \<and> handlers (serve_panics t' s) ! t = handlers s ! t"
proof -
  from serve_moves(1) [of t' s] obtain pc
    where "handlers (serve_returns t' s) = handlers s
         \<or> handlers (serve_returns t' s) = (handlers s)[t' := pc]" ..
  from others_untouched [OF this assms] have one: "handlers (serve_returns t' s) ! t = handlers s ! t" ..
  from serve_moves(2) [of t' s] obtain pc
    where "handlers (serve_panics t' s) = handlers s
         \<or> handlers (serve_panics t' s) = (handlers s)[t' := pc]" ..
  from others_untouched [OF this assms] have "handlers (serve_panics t' s) ! t = handlers s ! t" ..
  with one show ?thesis ..
qed

lemma checker_frame:
  "handlers (probe_done k p s) = handlers s \<and> handlers (checker_step k s) = handlers s"
  by (auto simp: probe_done_def checker_step_def split: cpc.splits option.splits sum.splits)

lemma length_handlers_step:
  "length (handlers (step bits e s)) = length (handlers s) \<or>
     (e = Arrive \<and> length (handlers (step bits e s)) = Suc (length (handlers s)))"
proof (cases e)
  case (Handler t)
  with handler_step_length [of bits t s] show ?thesis
    by (simp add: step_def)
next
  case (ServeReturns t)
  with serve_length [of t s] show ?thesis
    by (simp add: step_def)
next
  case (ServePanics t)
  with serve_length [of t s] show ?thesis
    by (simp add: step_def)
next
  case (ProbeDone k p)
  with checker_frame [of k p s] show ?thesis
    by (simp add: step_def)
next
  case (Checker k)
  with checker_frame [of k undefined s] show ?thesis
    by (simp add: step_def)
qed (simp add: step_def)

lemma length_handlers_run:
  "length (handlers (run bits es s)) \<le> length (handlers s) + count_list es Arrive"
proof (induction es arbitrary: s)
  case Nil
  then show ?case by simp
next
  case (Cons e es)
  from length_handlers_step [of bits e s] Cons.IH [of "step bits e s"] show ?case
    by auto
qed

lemma build_servers_fresh:
  "build_servers urlParse urls acc = Inr ss \<Longrightarrow> \<forall>s\<in>set acc. fresh s \<Longrightarrow> \<forall>s\<in>set ss. fresh s"
proof (induction urls arbitrary: acc)
  case Nil
  then show ?case by simp
next
  case (Cons u urls)
  from Cons.prems(1) obtain parsed where "urlParse u = Inr parsed"
    and built: "build_servers urlParse urls
        (acc @ [\<lparr>URL = parsed, ActiveConnections = 0, Mu = False, Healthy = True\<rparr>]) = Inr ss"
    by (auto split: sum.splits)
  have "\<forall>s\<in>set (acc @ [\<lparr>URL = parsed, ActiveConnections = 0, Mu = False, Healthy = True\<rparr>]). fresh s"
    using Cons.prems(2) by (simp add: fresh_def)
  from Cons.IH [OF built this] show ?case .
qed

lemma accounted_serving:
  "0 < bits \<Longrightarrow> \<forall>s\<in>set ss. fresh s \<Longrightarrow> accounted bits (serving ss port)"
  by (simp add: accounted_def serving_def tally_def fresh_def wrap_id)

lemma main_serving:
  assumes "main readFile unmarshal parseDuration urlParse listenAndServe = Serving s0"
  shows "\<exists>ss port. s0 = serving ss port \<and> (\<forall>s\<in>set ss. fresh s)"
proof -
  obtain config err where "loadConfig readFile unmarshal ''config.jsonc'' = (config, err)"
    by (cases "loadConfig readFile unmarshal ''config.jsonc''") auto
  with assms obtain ss
    where "build_servers urlParse (Servers config) [] = Inr ss"
      and "s0 = serving ss (ListenPort config)"
    by (auto simp: main_def split: option.splits sum.splits)
  with build_servers_fresh [of urlParse "Servers config" "[]" ss] show ?thesis
    by auto
qed

lemma main_accounted:
  assumes "main readFile unmarshal parseDuration urlParse listenAndServe = Serving s0"
    and "0 < bits"
  shows "accounted bits (run bits es s0)"
proof -
  from main_serving [OF assms(1)] assms(2) have "accounted bits s0"
    by (auto simp: accounted_serving)
  then show ?thesis
    by (rule accounted_run)
qed

text \<open>
  As long as fewer than \<open>2 ^ (bits - 1)\<close> requests have arrived, no counter has
  wrapped around: it is the number of handlers it accounts for, which is at least 0 and
  at most the number of requests that have arrived.
\<close>

lemma counter_bounded:
  assumes "main readFile unmarshal parseDuration urlParse listenAndServe = Serving s0"
    and "0 < bits" and "int (count_list es Arrive) < 2 ^ (bits - 1)"
    and "k < length (pool (run bits es s0))"
  shows "ActiveConnections (pool (run bits es s0) ! k)
           = tally counted_on k (handlers (run bits es s0))"
    and "0 \<le> ActiveConnections (pool (run bits es s0) ! k)"
    and "ActiveConnections (pool (run bits es s0) ! k) \<le> int (count_list es Arrive)"
proof -
  let ?s = "run bits es s0"
  from main_serving [OF assms(1)] have "handlers s0 = []"
    by (auto simp: serving_def)
  with length_handlers_run [of bits es s0]
  have arrived: "length (handlers ?s) \<le> count_list es Arrive"
    by simp
  from tally_bounds [of counted_on k "handlers ?s"]
  have low: "0 \<le> tally counted_on k (handlers ?s)"
    and high: "tally counted_on k (handlers ?s) \<le> int (length (handlers ?s))"
    by simp_all
  from high arrived have top: "tally counted_on k (handlers ?s) \<le> int (count_list es Arrive)"
    by simp
  have "tally counted_on k (handlers ?s) < 2 ^ (bits - 1)"
    using top assms(3) by linarith
  with low have "wrap bits (tally counted_on k (handlers ?s)) = tally counted_on k (handlers ?s)"
    by (intro wrap_id [OF assms(2)]) simp_all
  with main_accounted [OF assms(1,2), of es] assms(4)
  show eq: "ActiveConnections (pool ?s ! k) = tally counted_on k (handlers ?s)"
    by (simp add: accounted_def)
  from eq low show "0 \<le> ActiveConnections (pool ?s ! k)"
    by simp
  from eq top show "ActiveConnections (pool ?s ! k) \<le> int (count_list es Arrive)"
    by simp
qed





subsection \<open>Claim C9\<close>




subsection \<open>Mutual exclusion, and what it means for the handler\<close>

lemma holder_has_mutex:
  assumes "exclusive s" "t < length (handlers s)" "holds (handlers s ! t) = Some k"
  shows "k < length (pool s) \<and> Mu (pool s ! k)"
proof -
  from assms(1,2) have "in_pool (length (pool s)) (handlers s ! t)"
    by (simp add: exclusive_def)
  with assms(3) have k: "k < length (pool s)"
    by (cases "handlers s ! t") auto
  from tally_member [of t "handlers s" holds k, OF assms(2,3)] have "1 \<le> holders k s"
    by (simp add: holders_def)
  with assms(1) k show ?thesis
    by (auto simp: exclusive_def split: if_splits)
qed

lemma checker_has_mutex:
  assumes "exclusive s" "k < length (checkers s)" "checker_holds (checkers s ! k)"
  shows "Mu (pool s ! k)"
proof -
  from assms(3) tally_nonneg [of holds k "handlers s"] have "1 \<le> holders k s"
    by (simp add: holders_def)
  with assms(1,2) show ?thesis
    by (auto simp: exclusive_def split: if_splits)
qed


lemma Mu_after_update:
  "k < length ss \<Longrightarrow> j < length ss \<Longrightarrow>
     Mu (ss[k := (ss ! k)\<lparr>Mu := b\<rparr>] ! j) = (if j = k then b else Mu (ss ! j))"
  by simp

lemma exclusive_at:
  assumes "exclusive s" "t < length (handlers s)"
    and "holds pc = holds (handlers s ! t)"
    and "in_pool (length (pool s)) pc" "\<not> past_relock pc"
  shows "exclusive (at t pc s)"
proof -
  have "set ((handlers s)[t := pc]) \<subseteq> insert pc (set (handlers s))"
    by (rule set_update_subset_insert)
  with assms show ?thesis
    by (auto simp: exclusive_def at_def holders_def tally_update)
qed

lemma exclusive_add_connections:
  assumes "exclusive s"
  shows "exclusive (add_connections bits k d s)"
proof -
  have "Mu ((pool s)[k := (pool s ! k)\<lparr>ActiveConnections := c\<rparr>] ! j) = Mu (pool s ! j)"
    if "j < length (pool s)" for j c
    using that by (cases "j = k") simp_all
  with assms show ?thesis
    by (simp add: exclusive_def add_connections_def holders_def)
qed

lemma exclusive_acquire:
  assumes "exclusive s" "t < length (handlers s)"
    and "holds (handlers s ! t) = None" "holds pc = Some k" "k < length (pool s)"
    and "in_pool (length (pool s)) pc" "\<not> past_relock pc"
  shows "exclusive (try_lock t k pc s)"
proof (cases "Mu (pool s ! k)")
  case True
  with assms(1) show ?thesis
    by (simp add: try_lock_def lock_def)
next
  case False
  have sub: "set ((handlers s)[t := pc]) \<subseteq> insert pc (set (handlers s))"
    by (rule set_update_subset_insert)
  from False have eq: "try_lock t k pc s
      = s\<lparr>pool := (pool s)[k := (pool s ! k)\<lparr>Mu := True\<rparr>], handlers := (handlers s)[t := pc]\<rparr>"
    by (simp add: try_lock_def lock_def at_def)
  have len: "length (checkers s) = length (pool s)"
    using assms(1) by (simp add: exclusive_def)
  have pcs: "\<forall>h\<in>set ((handlers s)[t := pc]). in_pool (length (pool s)) h \<and> \<not> past_relock h"
    using assms(1,6,7) sub by (auto simp: exclusive_def)
  have cnt: "holders j (try_lock t k pc s)
      = (if Mu ((pool s)[k := (pool s ! k)\<lparr>Mu := True\<rparr>] ! j) then 1 else 0)"
    if j: "j < length (pool s)" for j
  proof -
    from assms(1) j have old: "holders j s = (if Mu (pool s ! j) then 1 else 0)"
      by (simp add: exclusive_def)
    show ?thesis
      using old False assms(2,3,4,5) j
      by (auto simp: eq holders_def tally_update split: if_splits)
  qed
  from len pcs cnt show ?thesis
    by (simp add: exclusive_def eq)
qed

lemma lock_held_waits:
  assumes "exclusive s" "t < length (handlers s)" "holds (handlers s ! t) = Some k"
  shows "try_lock t k pc s = s"
  using holder_has_mutex [OF assms] by (simp add: try_lock_def lock_def)

lemma exclusive_release:
  assumes "exclusive s" "t < length (handlers s)"
    and "holds (handlers s ! t) = Some k" "holds pc = None"
    and "in_pool (length (pool s)) pc" "\<not> past_relock pc"
  shows "exclusive (release t k pc s) \<and> fatal (release t k pc s) = fatal s"
proof -
  from holder_has_mutex [OF assms(1,2,3)] have k: "k < length (pool s)" and mu: "Mu (pool s ! k)"
    by auto
  have sub: "set ((handlers s)[t := pc]) \<subseteq> insert pc (set (handlers s))"
    by (rule set_update_subset_insert)
  from mu have eq: "release t k pc s
      = s\<lparr>pool := (pool s)[k := (pool s ! k)\<lparr>Mu := False\<rparr>], handlers := (handlers s)[t := pc]\<rparr>"
    by (simp add: release_def unlock_def at_def)
  have len: "length (checkers s) = length (pool s)"
    using assms(1) by (simp add: exclusive_def)
  have pcs: "\<forall>h\<in>set ((handlers s)[t := pc]). in_pool (length (pool s)) h \<and> \<not> past_relock h"
    using assms(1,5,6) sub by (auto simp: exclusive_def)
  have cnt: "holders j (release t k pc s)
      = (if Mu ((pool s)[k := (pool s ! k)\<lparr>Mu := False\<rparr>] ! j) then 1 else 0)"
    if j: "j < length (pool s)" for j
  proof -
    from assms(1) j have old: "holders j s = (if Mu (pool s ! j) then 1 else 0)"
      by (simp add: exclusive_def)
    show ?thesis
      using old mu assms(2,3,4) k j
      by (auto simp: eq holders_def tally_update split: if_splits)
  qed
  from len pcs cnt show ?thesis
    by (simp add: exclusive_def eq)
qed


lemma visit_best: "visit server i (least, best) = (least', best') \<Longrightarrow> best' = best \<or> best' = i"
  by (auto simp: visit_def split: if_splits)

lemma exclusive_handler_step:
  assumes "exclusive s" "t < length (handlers s)"
  shows "exclusive (handler_step bits t s) \<and> fatal (handler_step bits t s) = fatal s"
proof -
  from assms have here: "in_pool (length (pool s)) (handlers s ! t)"
    and not_past: "\<not> past_relock (handlers s ! t)"
    by (simp_all add: exclusive_def)
  show ?thesis
  proof (cases "handlers s ! t")
    case AtSelect
    with assms show ?thesis
      by (cases "pool s") (simp_all add: handler_step_def exclusive_at, simp_all add: at_def)
  next
    case (AtScanLock i least best)
    show ?thesis
    proof (cases "i < length (pool s)")
      case True
      with assms AtScanLock here show ?thesis
        by (simp add: handler_step_def exclusive_acquire)
          (simp add: try_lock_def at_def split: option.splits)
    next
      case False
      with assms AtScanLock here show ?thesis
        by (simp add: handler_step_def exclusive_at) (simp add: at_def)
    qed
  next
    case (AtScanBody i least best)
    obtain least' best' where v: "visit (pool s ! i) i (least, best) = (least', best')"
      by (cases "visit (pool s ! i) i (least, best)") auto
    from visit_best [OF v] AtScanBody here have "best' < length (pool s)"
      by auto
    with assms AtScanBody v show ?thesis
      by (simp add: handler_step_def exclusive_release)
  next
    case (AtLock k)
    with assms here show ?thesis
      by (simp add: handler_step_def exclusive_acquire)
        (simp add: try_lock_def at_def split: option.splits)
  next
    case (AtIncrement k)
    have "exclusive (at t (AtServe k) (add_connections bits k 1 s))"
      by (rule exclusive_at)
        (use assms AtIncrement here in \<open>simp_all add: exclusive_add_connections\<close>,
         simp_all add: add_connections_def)
    with AtIncrement show ?thesis
      by (simp add: handler_step_def at_def add_connections_def)
  next
    case (AtServe k)
    with assms show ?thesis
      by (simp add: handler_step_def)
  next
    case (AtRelock k)
    with assms lock_held_waits [OF assms, of k] show ?thesis
      by (simp add: handler_step_def)
  next
    case (AtDecrement k)
    with not_past show ?thesis by simp
  next
    case (AtDeferred2 k)
    with not_past show ?thesis by simp
  next
    case (AtDeferred1 k)
    with not_past show ?thesis by simp
  next
    case Finished
    with not_past show ?thesis by simp
  next
    case (Aborted k)
    with assms show ?thesis
      by (simp add: handler_step_def)
  next
    case (Panicked p)
    with assms show ?thesis
      by (simp add: handler_step_def)
  qed
qed


lemma exclusive_serve_returns:
  assumes "exclusive s" "t < length (handlers s)"
  shows "exclusive (serve_returns t s) \<and> fatal (serve_returns t s) = fatal s"
proof (cases "handlers s ! t")
  case (AtServe k)
  from assms have "in_pool (length (pool s)) (handlers s ! t)"
    by (simp add: exclusive_def)
  with assms AtServe show ?thesis
    by (simp add: serve_returns_def exclusive_at) (simp add: at_def)
qed (use assms in \<open>simp_all add: serve_returns_def\<close>)

lemma exclusive_serve_panics:
  assumes "exclusive s" "t < length (handlers s)"
  shows "exclusive (serve_panics t s) \<and> fatal (serve_panics t s) = fatal s"
proof (cases "handlers s ! t")
  case (AtServe k)
  from assms have "in_pool (length (pool s)) (handlers s ! t)"
    by (simp add: exclusive_def)
  with assms AtServe show ?thesis
    by (simp add: serve_panics_def exclusive_release)
qed (use assms in \<open>simp_all add: serve_panics_def\<close>)

lemma exclusive_probe_done:
  assumes "exclusive s" "k < length (checkers s)"
  shows "exclusive (probe_done k p s)"
proof (cases "checkers s ! k")
  case AtTick
  have "holders j (s\<lparr>checkers := (checkers s)[k := AtCheckLock p]\<rparr>) = holders j s"
    if "j < length (pool s)" for j
    using that assms AtTick by (cases "j = k") (simp_all add: holders_def exclusive_def)
  with assms AtTick show ?thesis
    by (simp add: probe_done_def exclusive_def)
qed (use assms in \<open>simp_all add: probe_done_def\<close>)

lemma exclusive_checker_step:
  assumes "exclusive s" "k < length (checkers s)"
  shows "exclusive (checker_step k s)"
proof -
  from assms have len: "length (checkers s) = length (pool s)" and k: "k < length (pool s)"
    by (simp_all add: exclusive_def)
  have old: "holders j s = (if Mu (pool s ! j) then 1 else 0)" if "j < length (pool s)" for j
    using that assms(1) by (simp add: exclusive_def)
  have pcs: "\<forall>h\<in>set (handlers s). in_pool (length (pool s)) h \<and> \<not> past_relock h"
    using assms(1) by (simp add: exclusive_def)
  show ?thesis
  proof (cases "checkers s ! k")
    case AtTick
    with assms show ?thesis by (simp add: checker_step_def)
  next
    case (AtCheckLock p)
    show ?thesis
    proof (cases "Mu (pool s ! k)")
      case True
      with assms AtCheckLock show ?thesis by (simp add: checker_step_def lock_def)
    next
      case False
      have "holders j (s\<lparr>pool := (pool s)[k := (pool s ! k)\<lparr>Mu := True\<rparr>],
                          checkers := (checkers s)[k := AtClose p]\<rparr>)
          = (if Mu ((pool s)[k := (pool s ! k)\<lparr>Mu := True\<rparr>] ! j) then 1 else 0)"
        if j: "j < length (pool s)" for j
        using old [OF j] j k len False AtCheckLock
        by (cases "j = k") (auto simp: holders_def split: if_splits)
      with False AtCheckLock len pcs show ?thesis
        by (simp add: checker_step_def lock_def exclusive_def)
    qed
  next
    case (AtClose p)
    show ?thesis
    proof (cases "close_body p")
      case (Inl e)
      with assms AtClose show ?thesis
        by (simp add: checker_step_def exclusive_def holders_def)
    next
      case (Inr logged)
      have "holders j (s\<lparr>checkers := (checkers s)[k := AtSetHealthy p], logs := logs s @ logged\<rparr>)
          = holders j s" if j: "j < length (pool s)" for j
        using j k len AtClose by (cases "j = k") (simp_all add: holders_def)
      with Inr AtClose len pcs old show ?thesis
        by (simp add: checker_step_def exclusive_def)
    qed
  next
    case (AtSetHealthy p)
    have mu: "Mu ((pool s)[k := (pool s ! k)\<lparr>Healthy := b\<rparr>] ! j) = Mu (pool s ! j)"
      if "j < length (pool s)" for j b
      using that by (cases "j = k") simp_all
    have "holders j (s\<lparr>pool := (pool s)[k := (pool s ! k)\<lparr>Healthy := probe_healthy p\<rparr>],
                        checkers := (checkers s)[k := AtUnlock]\<rparr>)
          = holders j s" if j: "j < length (pool s)" for j
      using j k len AtSetHealthy by (cases "j = k") (simp_all add: holders_def)
    with AtSetHealthy len pcs old mu show ?thesis
      by (simp add: checker_step_def exclusive_def)
  next
    case AtUnlock
    with checker_has_mutex [OF assms] have held: "Mu (pool s ! k)"
      by simp
    have "holders j (s\<lparr>pool := (pool s)[k := (pool s ! k)\<lparr>Mu := False\<rparr>],
                        checkers := (checkers s)[k := AtTick]\<rparr>)
        = (if Mu ((pool s)[k := (pool s ! k)\<lparr>Mu := False\<rparr>] ! j) then 1 else 0)"
      if j: "j < length (pool s)" for j
      using old [OF j] j k len held AtUnlock
      by (cases "j = k") (auto simp: holders_def split: if_splits)
    with held AtUnlock len pcs show ?thesis
      by (simp add: checker_step_def unlock_def exclusive_def)
  qed
qed

lemma exclusive_arrive:
  assumes "exclusive s"
  shows "exclusive (s\<lparr>handlers := handlers s @ [AtSelect]\<rparr>)"
  using assms by (auto simp: exclusive_def holders_def tally_def)

lemma exclusive_step: "exclusive s \<Longrightarrow> exclusive (step bits e s)"
  by (cases e)
    (simp_all add: step_def exclusive_arrive exclusive_handler_step exclusive_serve_returns
      exclusive_serve_panics exclusive_probe_done exclusive_checker_step)

lemma exclusive_run: "exclusive s \<Longrightarrow> exclusive (run bits es s)"
  by (induction es arbitrary: s) (simp_all add: exclusive_step)

lemma exclusive_serving: "\<forall>s\<in>set ss. \<not> Mu s \<Longrightarrow> exclusive (serving ss port)"
  by (simp add: exclusive_def serving_def holders_def tally_def)


lemma relock_waits_step:
  assumes "exclusive s" "t < length (handlers s)" "handlers s ! t = AtRelock k"
  shows "t < length (handlers (step bits e s)) \<and> handlers (step bits e s) ! t = AtRelock k"
proof (cases e)
  case Arrive
  with assms show ?thesis
    by (simp add: step_def nth_append)
next
  case (Handler t')
  show ?thesis
  proof (cases "t' = t")
    case True
    with assms Handler lock_held_waits [OF assms(1,2), of k "AtDecrement k"] show ?thesis
      by (simp add: step_def handler_step_def)
  next
    case False
    with assms Handler handler_step_frame [of t t' bits s] handler_step_length [of bits t' s]
    show ?thesis
      by (simp add: step_def)
  qed
next
  case (ServeReturns t')
  show ?thesis
  proof (cases "t' = t")
    case True
    with assms ServeReturns show ?thesis
      by (simp add: step_def serve_returns_def)
  next
    case False
    with assms ServeReturns serve_frame [of t t' s] serve_length [of t' s] show ?thesis
      by (simp add: step_def)
  qed
next
  case (ServePanics t')
  show ?thesis
  proof (cases "t' = t")
    case True
    with assms ServePanics show ?thesis
      by (simp add: step_def serve_panics_def)
  next
    case False
    with assms ServePanics serve_frame [of t t' s] serve_length [of t' s] show ?thesis
      by (simp add: step_def)
  qed
next
  case (ProbeDone k' p)
  with assms checker_frame [of k' p s] show ?thesis
    by (simp add: step_def)
next
  case (Checker k')
  with assms checker_frame [of k' undefined s] show ?thesis
    by (simp add: step_def)
qed

lemma relock_waits_run:
  assumes "exclusive s" "t < length (handlers s)" "handlers s ! t = AtRelock k"
  shows "t < length (handlers (run bits es s)) \<and> handlers (run bits es s) ! t = AtRelock k"
  using assms
proof (induction es arbitrary: s)
  case Nil
  then show ?case by simp
next
  case (Cons e es)
  from relock_waits_step [OF Cons.prems, of bits e]
  have "t < length (handlers (step bits e s))" and "handlers (step bits e s) ! t = AtRelock k"
    by simp_all
  from Cons.IH [OF exclusive_step [OF Cons.prems(1)] this]
  show ?case
    by simp
qed

text \<open>
  A handler a counter accounts for stays one: it is in \<open>ServeHTTP\<close>, or it waits at
  line 133, or its \<open>ServeHTTP\<close> has panicked.
\<close>

lemma counted_stays_step:
  assumes "exclusive s" "t < length (handlers s)" "counted_on (handlers s ! t) = Some k"
  shows "t < length (handlers (step bits e s))
       \<and> counted_on (handlers (step bits e s) ! t) = Some k"
proof -
  from assms(1,2) have "\<not> past_relock (handlers s ! t)"
    by (simp add: exclusive_def)
  with assms(3) consider (serve) "handlers s ! t = AtServe k"
    | (relock) "handlers s ! t = AtRelock k" | (aborted) "handlers s ! t = Aborted k"
    by (cases "handlers s ! t") auto
  then show ?thesis
  proof cases
    case relock
    from relock_waits_step [OF assms(1,2) relock, of bits e] show ?thesis
      by simp
  next
    case aborted
    show ?thesis
    proof (cases e)
      case Arrive
      with assms show ?thesis
        by (simp add: step_def nth_append)
    next
      case (Handler t')
      with assms aborted handler_step_frame [of t t' bits s] handler_step_length [of bits t' s]
      show ?thesis
        by (cases "t' = t") (simp_all add: step_def handler_step_def)
    next
      case (ServeReturns t')
      with assms aborted serve_frame [of t t' s] serve_length [of t' s] show ?thesis
        by (cases "t' = t") (simp_all add: step_def serve_returns_def)
    next
      case (ServePanics t')
      with assms aborted serve_frame [of t t' s] serve_length [of t' s] show ?thesis
        by (cases "t' = t") (simp_all add: step_def serve_panics_def)
    next
      case (ProbeDone k' p)
      with assms checker_frame [of k' p s] show ?thesis
        by (simp add: step_def)
    next
      case (Checker k')
      with assms checker_frame [of k' undefined s] show ?thesis
        by (simp add: step_def)
    qed
  next
    case serve
    show ?thesis
    proof (cases e)
      case Arrive
      with assms show ?thesis
        by (simp add: step_def nth_append)
    next
      case (Handler t')
      with assms serve handler_step_frame [of t t' bits s] handler_step_length [of bits t' s]
      show ?thesis
        by (cases "t' = t") (simp_all add: step_def handler_step_def)
    next
      case (ServeReturns t')
      with assms serve serve_frame [of t t' s] serve_length [of t' s] show ?thesis
        by (cases "t' = t") (simp_all add: step_def serve_returns_def at_def)
    next
      case (ServePanics t')
      show ?thesis
      proof (cases "t' = t")
        case True
        from handlers_handler_ops(3) [of t k "Aborted k" s] assms serve
        have "counted_on (handlers (release t k (Aborted k) s) ! t) = Some k
            \<and> length (handlers (release t k (Aborted k) s)) = length (handlers s)"
          by auto
        with True ServePanics assms serve show ?thesis
          by (simp add: step_def serve_panics_def)
      next
        case False
        with assms ServePanics serve_frame [of t t' s] serve_length [of t' s] show ?thesis
          by (simp add: step_def)
      qed
    next
      case (ProbeDone k' p)
      with assms checker_frame [of k' p s] show ?thesis
        by (simp add: step_def)
    next
      case (Checker k')
      with assms checker_frame [of k' undefined s] show ?thesis
        by (simp add: step_def)
    qed
  qed
qed

lemma tally_mono:
  assumes "\<forall>t<length hs. on (hs ! t) = Some k \<longrightarrow> t < length hs' \<and> on (hs' ! t) = Some k"
  shows "tally on k hs \<le> tally on k hs'"
  using assms
proof (induction hs arbitrary: hs')
  case Nil
  then show ?case
    using tally_nonneg [of on k hs'] by (simp add: tally_def)
next
  case (Cons h hs)
  show ?case
  proof (cases hs')
    case Nil
    with Cons.prems have none: "\<forall>t<length (h # hs). on ((h # hs) ! t) \<noteq> Some k"
      by auto
    then have "on h \<noteq> Some k"
      by auto
    moreover from none have "\<forall>t<length hs. on (hs ! t) = Some k \<longrightarrow> t < length [] \<and> on ([] ! t) = Some k"
      by auto
    from Cons.IH [OF this] have "tally on k hs \<le> 0"
      by (simp add: tally_def)
    ultimately show ?thesis
      using Nil by (simp add: tally_def)
  next
    case (Cons h' rest)
    from Cons.prems Cons have head: "on h = Some k \<longrightarrow> on h' = Some k"
      by auto
    from Cons.prems Cons
    have "\<forall>t<length hs. on (hs ! t) = Some k \<longrightarrow> t < length rest \<and> on (rest ! t) = Some k"
      by auto
    from Cons.IH [OF this] head Cons show ?thesis
      by (simp add: tally_def)
  qed
qed

lemma tally_step:
  assumes "exclusive s"
  shows "tally counted_on k (handlers s) \<le> tally counted_on k (handlers (step bits e s))"
  by (rule tally_mono) (use counted_stays_step [OF assms] in blast)

lemma tally_run:
  assumes "exclusive s"
  shows "tally counted_on k (handlers s) \<le> tally counted_on k (handlers (run bits es s))"
  using assms
proof (induction es arbitrary: s)
  case Nil
  then show ?case by simp
next
  case (Cons e es)
  from tally_step [OF Cons.prems, of k bits e]
    Cons.IH [OF exclusive_step [OF Cons.prems, of bits e]]
  show ?case by simp
qed

lemma main_exclusive:
  assumes "main readFile unmarshal parseDuration urlParse listenAndServe = Serving s0"
  shows "exclusive (run bits es s0)"
proof -
  from main_serving [OF assms] have "exclusive s0"
    by (auto simp: exclusive_serving fresh_def)
  then show ?thesis
    by (rule exclusive_run)
qed

text \<open>
  In no state the process can reach has a handler executed the second Lock of line 133:
  the decrement of line 135 is never executed, and no handler returns.
\<close>

lemma decrement_never_reached:
  assumes "main readFile unmarshal parseDuration urlParse listenAndServe = Serving s0"
    and "h \<in> set (handlers (run bits es s0))"
  shows "\<not> past_relock h"
  using main_exclusive [OF assms(1), of bits es] assms(2) by (simp add: exclusive_def)

text \<open>
  A handler that has come back from \<open>ServeHTTP\<close> stays at line 133 whatever happens
  next, and the counter it incremented accounts for it ever after: as long as the counter
  has not wrapped around, it stays at 1 or more.
\<close>

lemma handler_waits_for_ever:
  assumes "main readFile unmarshal parseDuration urlParse listenAndServe = Serving s0"
    and "t < length (handlers (run bits es s0))"
    and "handlers (run bits es s0) ! t = AtRelock k"
  shows "handlers (run bits (es @ es') s0) ! t = AtRelock k"
    and "0 < bits \<Longrightarrow> int (count_list (es @ es') Arrive) < 2 ^ (bits - 1) \<Longrightarrow>
           1 \<le> ActiveConnections (pool (run bits (es @ es') s0) ! k)"
proof -
  let ?s = "run bits (es @ es') s0"
  from relock_waits_run [OF main_exclusive [OF assms(1)] assms(2,3), of bits es']
  have t: "t < length (handlers ?s)" and pc: "handlers ?s ! t = AtRelock k"
    by (simp_all add: run_append)
  from pc show "handlers ?s ! t = AtRelock k" .
  assume width: "0 < bits" and few: "int (count_list (es @ es') Arrive) < 2 ^ (bits - 1)"
  from main_exclusive [OF assms(1), of bits "es @ es'"] t pc have k: "k < length (pool ?s)"
    using holder_has_mutex [of ?s t k] by simp
  from tally_member [of t "handlers ?s" counted_on k] t pc
  have "1 \<le> tally counted_on k (handlers ?s)"
    by simp
  with counter_bounded(1) [OF assms(1) width few k]
  show "1 \<le> ActiveConnections (pool ?s ! k)"
    by simp
qed

text \<open>As long as no counter has wrapped around, no counter goes down.\<close>

lemma counters_never_decrease:
  assumes "main readFile unmarshal parseDuration urlParse listenAndServe = Serving s0"
    and "0 < bits" and "int (count_list (es @ es') Arrive) < 2 ^ (bits - 1)"
    and "j < length (pool s0)"
  shows "ActiveConnections (pool (run bits es s0) ! j)
       \<le> ActiveConnections (pool (run bits (es @ es') s0) ! j)"
proof -
  have "int (count_list (es @ es') Arrive) = int (count_list es Arrive) + int (count_list es' Arrive)"
    by simp
  with assms(3) have few: "int (count_list es Arrive) < 2 ^ (bits - 1)"
    by linarith
  from assms(4) have j: "j < length (pool (run bits es s0))"
    "j < length (pool (run bits (es @ es') s0))"
    by (simp_all add: length_pool_run)
  from tally_run [OF main_exclusive [OF assms(1), of bits es], of j bits es']
  have "tally counted_on j (handlers (run bits es s0))
      \<le> tally counted_on j (handlers (run bits (es @ es') s0))"
    by (simp add: run_append)
  with counter_bounded(1) [OF assms(1,2) few j(1)] counter_bounded(1) [OF assms(1,2,3) j(2)]
  show ?thesis
    by simp
qed

subsection \<open>Claim C1\<close>

text \<open>
  C1 says that the handler decrements the chosen server's counter after forwarding on
  every exit path, so that the counters are back at 0 once the requests are done. Take
  one request to a pool of one healthy idle server. The handler locks the server's mutex
  at line 127 and defers the Unlock to its return, increments the counter, and after
  \<open>ServeHTTP\<close> has returned locks the same mutex again at line 133. The mutex is
  still held, by this very goroutine, and \<open>sync.Mutex\<close> is not re-entrant: the
  handler waits at line 133, line 135 is not reached, and the counter stays 1. In
  general, no handler ever gets past line 133 (\<open>decrement_never_reached\<close>), one that
  waits there waits for ever (\<open>handler_waits_for_ever\<close>), and no counter ever goes
  down (\<open>counters_never_decrease\<close>).
\<close>

theorem handler_blocks_before_decrement:
  "example_main [''http://backend''] = Serving (serving [srv True 0] '':8080'')
   \<and> run 64 [Arrive, Handler 0, Handler 0, Handler 0, Handler 0, Handler 0, Handler 0,
          ServeReturns 0, Handler 0, Handler 0]
       (serving [srv True 0] '':8080'')
     = \<lparr>pool = [\<lparr>URL = ''http://backend'', ActiveConnections = 1, Mu = True, Healthy = True\<rparr>],
        handlers = [AtRelock 0], checkers = [AtTick],
        logs = [''Starting server on port :8080''], fatal = None\<rparr>"
  by (simp add: example_main_def main_def loadConfig_def zero_Config_def srv_def serving_def
      step_def handler_step_def serve_returns_def at_def try_lock_def release_def
      add_connections_def lock_def unlock_def visit_def wrap_def)

end
